theory Spec2Isabelle
  imports Main "HOL-Library.Sublist" "HOL-Library.Multiset"
begin

section \<open>Data model (main.go, lines 18--66)\<close>

text \<open>
  Values of Go's \<^verbatim>\<open>interface{}\<close> as the YAML and JSON decoders produce them. The
  program inspects only strings, slices and string-keyed maps; a number keeps its literal.
\<close>

datatype iface =
    Nil
  | Bool bool
  | Number string
  | String string
  | Slice "iface list"
  | Map "(string \<times> iface) list"

record Plugin =
  Name :: string
  Config :: "(string \<times> iface) list"

record Route =
  Name :: string
  Paths :: "string list"
  Methods :: "string list"
  Hosts :: "string list"
  Plugins :: "Plugin list"
  Priority :: int

record Service =
  Name :: string
  URL :: string
  Plugins :: "Plugin list"
  Routes :: "Route list"

record KongConfig =
  Services :: "Service list"

text \<open>
  A Go \<^verbatim>\<open>error\<close> value held by a result. The tag records which call returned it:
  \<^verbatim>\<open>http.NewRequest\<close> (line 258) or \<^verbatim>\<open>client.Do\<close> (line 278).
\<close>

datatype goerror = NewRequestError string | DoError string

record Request =
  Method :: string
  URL :: string
  Header :: "(string \<times> string) list"
  Body :: "string option"

record Response =
  StatusCode :: int
  Body :: string

record TestResult =
  Service :: string
  Route :: string
  Path :: string
  Method :: string
  RequiresAuth :: bool
  StatusCode :: int
  Error :: "goerror option"
  Message :: string

text \<open>The command-line flags (lines 57--66), read-only after \<^verbatim>\<open>pflag.Parse\<close>.\<close>

record flags =
  kongFile :: string
  baseURL :: string
  authToken :: string
  testAuth :: bool
  testUnauth :: bool
  verbose :: bool
  dryRun :: bool
  maxRequests :: int

text \<open>
  What the program takes from outside itself. \<open>NewRequest m u\<close> is the error of
  \<^verbatim>\<open>http.NewRequest\<close> for method \<open>m\<close> and URL \<open>u\<close> (\<open>None\<close> when the request is
  built). \<open>Do n req\<close> is the answer of \<^verbatim>\<open>client.Do\<close> to the request sent when \<open>n\<close>
  requests have been counted. \<open>Unmarshal\<close> is \<^verbatim>\<open>json.Unmarshal\<close> into a
  \<^verbatim>\<open>map[string]interface{}\<close>. \<open>mapOrder n\<close> is the runtime's choice of an iteration
  order for the \<^verbatim>\<open>range\<close> over a map started when \<open>n\<close> requests have been counted.
\<close>

record io =
  NewRequest :: "string \<Rightarrow> string \<Rightarrow> string option"
  Do :: "int \<Rightarrow> Request \<Rightarrow> string + Response"
  Unmarshal :: "string \<Rightarrow> (string \<times> iface) list option"
  mapOrder :: "int \<Rightarrow> nat list"

datatype panic = NilPointerDereference

section \<open>Strings\<close>

text \<open>\<^verbatim>\<open>strings.Contains(s, sub)\<close>: \<open>sub\<close> occurs in \<open>s\<close> as a contiguous run of bytes.\<close>

primrec Contains :: "string \<Rightarrow> string \<Rightarrow> bool" where
  "Contains [] sub = (sub = [])"
| "Contains (c # cs) sub = (prefix sub (c # cs) \<or> Contains cs sub)"

section \<open>Template resolution (lines 103--125)\<close>

text \<open>
  The pattern of line 105 is \<^verbatim>\<open>\$\{([^:}]+)(:[?=][^}]*)?\}\<close>. \<open>matchAt s\<close> is the length of its
  match at the start of \<open>s\<close>, if there is one. The name is the longest run of bytes other
  than \<^verbatim>\<open>:\<close> and \<^verbatim>\<open>}\<close>, and must not be empty; after it comes either the closing
  brace, or a colon, one of \<^verbatim>\<open>?\<close> and \<^verbatim>\<open>=\<close>, the longest run of bytes other than
  \<^verbatim>\<open>}\<close>, and the closing brace. A shorter name is followed by a name byte, which is
  neither a colon nor a brace, so giving back bytes of a greedy run never finds another
  match. The bytes of a multi-byte UTF-8 sequence are none of the four delimiters, so
  matching bytes and matching runes find the same matches.
\<close>

definition nameChar :: "char \<Rightarrow> bool" where
  "nameChar c \<longleftrightarrow> c \<noteq> CHR '':'' \<and> c \<noteq> CHR ''}''"

definition defaultChar :: "char \<Rightarrow> bool" where
  "defaultChar c \<longleftrightarrow> c \<noteq> CHR ''}''"

definition matchAt :: "string \<Rightarrow> nat option" where
  "matchAt s =
     (case s of
        c1 # c2 # r \<Rightarrow>
          if c1 = CHR ''$'' \<and> c2 = CHR ''{'' then
            (let name = takeWhile nameChar r in
             if name = [] then None
             else
               case dropWhile nameChar r of
                 [] \<Rightarrow> None
               | d # r2 \<Rightarrow>
                   if d = CHR ''}'' then Some (length name + 3)
                   else
                     (case r2 of
                        [] \<Rightarrow> None
                      | op # r3 \<Rightarrow>
                          if op = CHR ''?'' \<or> op = CHR ''='' then
                            (case dropWhile defaultChar r3 of
                               [] \<Rightarrow> None
                             | e # r4 \<Rightarrow> Some (length name + length (takeWhile defaultChar r3) + 5))
                          else None))
          else None
      | _ \<Rightarrow> None)"

text \<open>
  \<^verbatim>\<open>re.ReplaceAllFunc(data, repl)\<close> for this pattern: the text is searched from left to
  right, every match is replaced by \<open>repl\<close> of its bytes, and the search goes on after the
  match. \<open>skip\<close> is the number of bytes of the last match still to pass.
\<close>

fun ReplaceAllFunc :: "(string \<Rightarrow> string) \<Rightarrow> nat \<Rightarrow> string \<Rightarrow> string" where
  "ReplaceAllFunc repl skip [] = []"
| "ReplaceAllFunc repl (Suc skip) (c # cs) = ReplaceAllFunc repl skip cs"
| "ReplaceAllFunc repl 0 (c # cs) =
     (case matchAt (c # cs) of
        Some n \<Rightarrow> repl (take n (c # cs)) @ ReplaceAllFunc repl (n - 1) cs
      | None \<Rightarrow> c # ReplaceAllFunc repl 0 cs)"

text \<open>\<^verbatim>\<open>strings.Split(s, sep)\<close> for a separator of one byte.\<close>

fun Split :: "string \<Rightarrow> char \<Rightarrow> string list" where
  "Split [] sep = [[]]"
| "Split (c # cs) sep =
     (if c = sep then [] # Split cs sep
      else (case Split cs sep of p # ps \<Rightarrow> (c # p) # ps | [] \<Rightarrow> [[c]]))"

text \<open>\<^verbatim>\<open>os.Getenv\<close>: the empty string for a variable that is not set.\<close>

definition Getenv :: "(string \<rightharpoonup> string) \<Rightarrow> string \<Rightarrow> string" where
  "Getenv env key = (case env key of None \<Rightarrow> [] | Some v \<Rightarrow> v)"

text \<open>The function passed to \<^verbatim>\<open>ReplaceAllFunc\<close> (lines 107--122).\<close>

definition substitute :: "(string \<rightharpoonup> string) \<Rightarrow> string \<Rightarrow> string" where
  "substitute env match =
     (let parts = Split (take (length match - 1 - 2) (drop 2 match)) CHR '':'';
          envVar = hd parts;
          value = Getenv env envVar
      in
      if value \<noteq> [] then value
      else if Contains envVar ''SERVICE_ADDRESS'' then ''http://services.sms.community:10000''
      else ''http://placeholder'')"

definition handleTemplating :: "(string \<rightharpoonup> string) \<Rightarrow> string \<Rightarrow> string" where
  "handleTemplating env data = ReplaceAllFunc (substitute env) 0 data"

section \<open>Auth classification (lines 187--203)\<close>

text \<open>
  One \<^verbatim>\<open>for _, plugin := range ...\<close> loop of \<^verbatim>\<open>hasAuthPlugin\<close>: \<open>True\<close> when the
  loop returns true from inside, \<open>False\<close> when it runs to its end.
\<close>

fun pluginLoop :: "Plugin list \<Rightarrow> bool" where
  "pluginLoop [] = False"
| "pluginLoop (plugin # rest) = (if Plugin.Name plugin = ''auth'' then True else pluginLoop rest)"

definition hasAuthPlugin :: "Route \<Rightarrow> Service \<Rightarrow> bool" where
  "hasAuthPlugin route service =
     (if pluginLoop (Route.Plugins route) then True
      else if pluginLoop (Service.Plugins service) then True
      else False)"

section \<open>Path materialization (lines 205--226)\<close>

text \<open>
  \<^verbatim>\<open>strings.ReplaceAll(s, old, new)\<close>: the occurrences of \<open>old\<close> that do not overlap,
  from left to right. For an empty \<open>old\<close>, \<open>new\<close> goes before every byte and at the end
  (Go counts runes; no pattern of the table is empty).
\<close>

fun ReplaceAll_from :: "nat \<Rightarrow> string \<Rightarrow> string \<Rightarrow> string \<Rightarrow> string" where
  "ReplaceAll_from skip [] old new = []"
| "ReplaceAll_from (Suc skip) (c # cs) old new = ReplaceAll_from skip cs old new"
| "ReplaceAll_from 0 (c # cs) old new =
     (if prefix old (c # cs) then new @ ReplaceAll_from (length old - 1) cs old new
      else c # ReplaceAll_from 0 cs old new)"

definition ReplaceAll :: "string \<Rightarrow> string \<Rightarrow> string \<Rightarrow> string" where
  "ReplaceAll s old new =
     (if old = [] then new @ concat (map (\<lambda>c. c # new) s) else ReplaceAll_from 0 s old new)"

text \<open>The map literal of lines 207--218, in the order it is written.\<close>

definition replacements :: "(string \<times> string) list" where
  "replacements =
     [(''(?<client_id>[0-9a-fA-F-]+)'', ''3a45625e-fd29-47a5-8294-e30fe2d3d391''),
      (''(?<seat_id>[0-9a-fA-F-]+)'', ''123e4567-e89b-12d3-a456-426614174000''),
      (''(?<invite_token>[0-9a-fA-F-]+)'', ''987fcdeb-51a2-43e1-b210-0123456789ab''),
      (''(?<test_id>[0-9a-fA-F-]+)'', ''test-id-123''),
      (''(?<user_id>[^/]+)'', ''user123''),
      (''(?<embed_id>[0-9a-fA-F-]+)'', ''embed-456''),
      (''[0-9a-fA-F-]+'', ''abc123def456''),
      (''[a-zA-Z0-9_-]+'', ''test-value''),
      (''[^/]+'', ''example''),
      (''(.*)'', ''path'')]"

text \<open>
  \<^verbatim>\<open>replacements\<close> is a Go map, and line 221 ranges over it. The language leaves the
  order of that iteration unspecified, and the runtime starts every \<^verbatim>\<open>range\<close> over a
  map at a place it draws at random. \<open>rangeOrder ks xs\<close> is the order the choices \<open>ks\<close>
  stand for: the entry at index \<open>k mod length xs\<close> is visited first and leaves the
  list, and so on; with no choice left the entries that remain follow as written. Every
  result is a permutation of \<open>xs\<close>, and every permutation is the result of some \<open>ks\<close>.
\<close>

fun rangeOrder :: "nat list \<Rightarrow> 'a list \<Rightarrow> 'a list" where
  "rangeOrder ks [] = []"
| "rangeOrder [] (x # xs) = x # xs"
| "rangeOrder (k # ks) (x # xs) =
     (let i = k mod length (x # xs)
      in (x # xs) ! i # rangeOrder ks (take i (x # xs) @ drop (Suc i) (x # xs)))"

text \<open>The loop of lines 221--223 over the entries in the order of the iteration.\<close>

fun replaceLoop :: "(string \<times> string) list \<Rightarrow> string \<Rightarrow> string" where
  "replaceLoop [] result = result"
| "replaceLoop ((pattern, replacement) # rest) result =
     replaceLoop rest (ReplaceAll result pattern replacement)"

definition expandRegexPath :: "nat list \<Rightarrow> string \<Rightarrow> string" where
  "expandRegexPath ks path = replaceLoop (rangeOrder ks replacements) path"

section \<open>One probe (lines 228--310)\<close>

text \<open>\<^verbatim>\<open>Header.Set\<close>: the key's former values are replaced.\<close>

definition Header_Set :: "(string \<times> string) list \<Rightarrow> string \<Rightarrow> string \<Rightarrow> (string \<times> string) list" where
  "Header_Set h k v = (k, v) # filter (\<lambda>kv. fst kv \<noteq> k) h"

text \<open>
  \<^verbatim>\<open>http.NewRequest\<close> returns a nil request together with every error it returns, and
  a request with an empty header otherwise.
\<close>

definition http_NewRequest :: "io \<Rightarrow> string \<Rightarrow> string \<Rightarrow> string option \<Rightarrow> Request option \<times> string option" where
  "http_NewRequest w m u b =
     (case NewRequest w m u of
        Some e \<Rightarrow> (None, Some e)
      | None \<Rightarrow> (Some \<lparr>Request.Method = m, URL = u, Header = [], Body = b\<rparr>, None))"

text \<open>Lines 288--306: the message of a response whose status is 400 or more.\<close>

definition topLevelMessage :: "(string \<times> iface) list \<Rightarrow> string \<Rightarrow> string" where
  "topLevelMessage errorResp old =
     (case map_of errorResp ''message'' of Some (String msg) \<Rightarrow> msg | _ \<Rightarrow> old)"

definition responseMessage :: "io \<Rightarrow> Response \<Rightarrow> string \<Rightarrow> string" where
  "responseMessage w resp old =
     (if Response.StatusCode resp \<ge> 400 then
        (if length (Response.Body resp) > 0 then
           (case Unmarshal w (Response.Body resp) of
              Some errorResp \<Rightarrow>
                (case map_of errorResp ''errors'' of
                   Some (Slice errors) \<Rightarrow>
                     (if length errors > 0 then
                        (case hd errors of
                           Map errorMap \<Rightarrow>
                             (case map_of errorMap ''message'' of
                                Some (String msg) \<Rightarrow> msg
                              | _ \<Rightarrow> old)
                         | _ \<Rightarrow> old)
                      else topLevelMessage errorResp old)
                 | _ \<Rightarrow> topLevelMessage errorResp old)
            | None \<Rightarrow> Response.Body resp)
         else old)
      else old)"

text \<open>
  \<^verbatim>\<open>testEndpoint\<close>. \<open>n\<close> is the number of requests counted so far; the source does not
  pass it, it only names the moment of the call for \<open>Do\<close>. A nil request in
  \<^verbatim>\<open>req.Header.Set\<close> (line 253) is a run-time panic, the value \<open>Inl\<close>; so would be a
  nil request that came with no error, which \<^verbatim>\<open>http.NewRequest\<close> never returns. What
  \<^verbatim>\<open>printResult\<close> writes to the terminal is not part of the returned value.
\<close>

definition testEndpoint ::
  "flags \<Rightarrow> io \<Rightarrow> int \<Rightarrow> string \<Rightarrow> string \<Rightarrow> string \<Rightarrow> string \<Rightarrow> bool \<Rightarrow> panic + TestResult" where
  "testEndpoint fl w n service route path method' requiresAuth =
     (let result = \<lparr>Service = service, Route = route, Path = path, Method = method',
                     RequiresAuth = requiresAuth, StatusCode = 0, Error = None, Message = []\<rparr>
      in
      if dryRun fl then Inr (result\<lparr>Message := ''DRY RUN''\<rparr>)
      else
        let url' = baseURL fl @ path;
            built =
              (if method' = ''POST'' \<or> method' = ''PUT'' \<or> method' = ''PATCH'' then
                 (case http_NewRequest w method' url' (Some ''{\"test\": \"data\"}'') of
                    (None, err) \<Rightarrow> Inl NilPointerDereference
                  | (Some req, err) \<Rightarrow>
                      Inr (Some (req\<lparr>Header := Header_Set (Header req) ''Content-Type'' ''application/json''\<rparr>), err))
               else Inr (http_NewRequest w method' url' None))
        in
        case built of
          Inl p \<Rightarrow> Inl p
        | Inr (req, Some e) \<Rightarrow> Inr (result\<lparr>Error := Some (NewRequestError e)\<rparr>)
        | Inr (None, None) \<Rightarrow> Inl NilPointerDereference
        | Inr (Some req, None) \<Rightarrow>
            (let req' =
                   (if requiresAuth \<and> authToken fl \<noteq> [] then
                      req\<lparr>Header := Header_Set (Header req) ''Authorization'' (''Bearer '' @ authToken fl)\<rparr>
                    else req)
             in
             case Do w n req' of
               Inl e \<Rightarrow> Inr (result\<lparr>Error := Some (DoError e)\<rparr>)
             | Inr resp \<Rightarrow>
                 Inr (result\<lparr>StatusCode := Response.StatusCode resp,
                             Message := responseMessage w resp (Message result)\<rparr>)))"

section \<open>The control loop (lines 127--185)\<close>

text \<open>
  The two local variables of \<^verbatim>\<open>testRoutes\<close>. \<^verbatim>\<open>requestCount\<close> is a Go \<^verbatim>\<open>int\<close>; it
  is read only when \<^verbatim>\<open>maxRequests\<close> is positive, and is then incremented only while it
  is below \<^verbatim>\<open>maxRequests\<close>, so the value that is read never wraps and an unbounded
  integer holds it.
\<close>

record state =
  results :: "TestResult list"
  requestCount :: int

text \<open>
  How a loop ends: it runs to its end, \<^verbatim>\<open>testRoutes\<close> returns from inside it (line
  170), or a probe panics. A panic keeps the state it happened in.
\<close>

datatype flow = Continue state | Return "TestResult list" | Panic state

text \<open>
  A \<^verbatim>\<open>for _, x := range xs\<close> loop over a slice: the body runs for each element in
  turn, and a return or a panic inside the body ends the loop.
\<close>

fun forEach :: "('a \<Rightarrow> state \<Rightarrow> flow) \<Rightarrow> 'a list \<Rightarrow> state \<Rightarrow> flow" where
  "forEach body' [] st = Continue st"
| "forEach body' (x # xs) st =
     (case body' x st of
        Continue st' \<Rightarrow> forEach body' xs st'
      | out \<Rightarrow> out)"

text \<open>The body of the loop over the methods (lines 169--178).\<close>

definition methodBody ::
  "flags \<Rightarrow> io \<Rightarrow> string \<Rightarrow> string \<Rightarrow> string \<Rightarrow> bool \<Rightarrow> string \<Rightarrow> state \<Rightarrow> flow" where
  "methodBody fl w service route path hasAuth method' st =
     (if maxRequests fl > 0 \<and> requestCount st \<ge> maxRequests fl then Return (results st)
      else
        case testEndpoint fl w (requestCount st) service route path method' hasAuth of
          Inl p \<Rightarrow> Panic st
        | Inr result \<Rightarrow>
            Continue (st\<lparr>results := results st @ [result], requestCount := requestCount st + 1\<rparr>))"

text \<open>
  The body of the loop over the paths (lines 163--179). Between two calls of
  \<^verbatim>\<open>expandRegexPath\<close> a request is counted, since the list of methods is never empty;
  so the counter names the call, and every call has an iteration order of its own.
\<close>

definition pathBody ::
  "flags \<Rightarrow> io \<Rightarrow> string \<Rightarrow> string \<Rightarrow> bool \<Rightarrow> string list \<Rightarrow> string \<Rightarrow> state \<Rightarrow> flow" where
  "pathBody fl w service route hasAuth methods path st =
     (let path' = (if Contains path ''(?<'' then expandRegexPath (mapOrder w (requestCount st)) path
                   else path)
      in forEach (methodBody fl w service route path' hasAuth) methods st)"

text \<open>The body of the loop over the routes (lines 144--180).\<close>

definition routeBody :: "flags \<Rightarrow> io \<Rightarrow> Service \<Rightarrow> Route \<Rightarrow> state \<Rightarrow> flow" where
  "routeBody fl w service route st =
     (let hasAuth = hasAuthPlugin route service in
      if hasAuth \<and> \<not> testAuth fl then Continue st
      else if \<not> hasAuth \<and> \<not> testUnauth fl then Continue st
      else
        let methods = (if length (Methods route) = 0
                       then [''GET'', ''POST'', ''PUT'', ''DELETE'', ''PATCH'']
                       else Methods route)
        in forEach (pathBody fl w (Service.Name service) (Route.Name route) hasAuth methods)
             (Paths route) st)"

text \<open>The body of the loop over the services (lines 132--181).\<close>

definition serviceBody :: "flags \<Rightarrow> io \<Rightarrow> Service \<Rightarrow> state \<Rightarrow> flow" where
  "serviceBody fl w service st =
     (if Contains (Service.Name service) ''test'' \<or>
         Contains (Service.Name service) ''health-check'' \<or>
         Service.Name service = ''atlantis'' \<or>
         Service.Name service = ''atlantis-legacy''
      then Continue st
      else forEach (routeBody fl w service) (Routes service) st)"

text \<open>
  \<^verbatim>\<open>testRoutes\<close> returns its results, or the process dies in a panic; \<open>Panicked\<close> holds
  the results that had been produced by then.
\<close>

datatype run = Returned "TestResult list" | Panicked "TestResult list"

definition testRoutes :: "flags \<Rightarrow> io \<Rightarrow> KongConfig \<Rightarrow> run" where
  "testRoutes fl w config =
     (case forEach (serviceBody fl w) (Services config) \<lparr>results = [], requestCount = 0\<rparr> of
        Continue st \<Rightarrow> Returned (results st)
      | Return rs \<Rightarrow> Returned rs
      | Panic st \<Rightarrow> Panicked (results st))"

section \<open>Summary (lines 353--400)\<close>

text \<open>
  \<^verbatim>\<open>m[k]++\<close> on a Go map: a missing key reads as zero.
\<close>

definition increment :: "('k \<rightharpoonup> int) \<Rightarrow> 'k \<Rightarrow> ('k \<rightharpoonup> int)" where
  "increment m k = m(k \<mapsto> (case m k of None \<Rightarrow> 0 | Some c \<Rightarrow> c) + 1)"

record Summary =
  total :: int
  successful :: int
  authFailed :: int
  otherErrors :: int
  byService :: "string \<rightharpoonup> int"
  byStatusCode :: "int \<rightharpoonup> int"
  problematic :: "TestResult list"

text \<open>The body of the first loop (lines 365--376).\<close>

definition tally :: "TestResult \<Rightarrow> Summary \<Rightarrow> Summary" where
  "tally result s =
     (let s1 = s\<lparr>byService := increment (byService s) (Service result),
                byStatusCode := increment (byStatusCode s) (StatusCode result)\<rparr>
      in
      if StatusCode result \<ge> 200 \<and> StatusCode result < 400 then
        s1\<lparr>successful := successful s1 + 1\<rparr>
      else if StatusCode result = 401 then
        s1\<lparr>authFailed := authFailed s1 + 1\<rparr>
      else if StatusCode result \<ge> 400 \<or> Error result \<noteq> None then
        s1\<lparr>otherErrors := otherErrors s1 + 1\<rparr>
      else s1)"

fun tallyLoop :: "TestResult list \<Rightarrow> Summary \<Rightarrow> Summary" where
  "tallyLoop [] s = s"
| "tallyLoop (result # rest) s = tallyLoop rest (tally result s)"

text \<open>The second loop (lines 395--399): the results for which a line is printed.\<close>

fun problematicLoop :: "TestResult list \<Rightarrow> TestResult list" where
  "problematicLoop [] = []"
| "problematicLoop (result # rest) =
     (if StatusCode result = 401 \<and> \<not> RequiresAuth result then result # problematicLoop rest
      else problematicLoop rest)"

text \<open>
  \<^verbatim>\<open>printSummary\<close> prints; the model returns what it prints. The counters are Go
  \<^verbatim>\<open>int\<close>s that count elements of a slice, so they do not wrap.
\<close>

definition printSummary :: "TestResult list \<Rightarrow> Summary" where
  "printSummary rs =
     (tallyLoop rs
        \<lparr>total = int (length rs), successful = 0, authFailed = 0, otherErrors = 0,
         byService = Map.empty, byStatusCode = Map.empty, problematic = []\<rparr>)
     \<lparr>problematic := problematicLoop rs\<rparr>"

section \<open>Notions used by the statements\<close>

text \<open>
  What appending the outcome \<open>r\<close> to the sequence \<open>rs\<close> adds to the three counters of
  the summary: successes, auth failures, other errors.
\<close>

definition bucketDelta :: "TestResult list \<Rightarrow> TestResult \<Rightarrow> int \<times> int \<times> int" where
  "bucketDelta rs r =
     (successful (printSummary (rs @ [r])) - successful (printSummary rs),
      authFailed (printSummary (rs @ [r])) - authFailed (printSummary rs),
      otherErrors (printSummary (rs @ [r])) - otherErrors (printSummary rs))"

definition bucketSum :: "Summary \<Rightarrow> int" where
  "bucketSum s = successful s + authFailed s + otherErrors s"

text \<open>Concrete inputs: the flags' default values, a network that refuses every connection,
  and an outcome with a given status, auth flag and error.\<close>

definition defaults :: flags where
  "defaults = \<lparr>kongFile = ''kong.yaml'', baseURL = ''https://api.dev.community.com'', authToken = [],
               testAuth = True, testUnauth = True, verbose = False, dryRun = False, maxRequests = 0\<rparr>"

definition offline :: io where
  "offline = \<lparr>NewRequest = (\<lambda>m u. None), Do = (\<lambda>n req. Inl ''connection refused''),
              Unmarshal = (\<lambda>b. None), mapOrder = (\<lambda>n. [])\<rparr>"

definition outcome :: "int \<Rightarrow> bool \<Rightarrow> goerror option \<Rightarrow> TestResult" where
  "outcome code auth err =
     \<lparr>Service = ''svc'', Route = ''route'', Path = ''/x'', Method = ''GET'',
      RequiresAuth = auth, StatusCode = code, Error = err, Message = []\<rparr>"

text \<open>
  A placeholder as the pattern of line 105 admits it: \<^verbatim>\<open>${\<close>, a name, an optional default
  part and \<^verbatim>\<open>}\<close>. The name is not empty and has no colon and no closing brace. The
  default part is empty, or a colon, one of \<^verbatim>\<open>?\<close> and \<^verbatim>\<open>=\<close>, and a text with no
  closing brace.
\<close>

definition placeholder :: "string \<Rightarrow> string \<Rightarrow> string" where
  "placeholder name dflt = ''${'' @ name @ dflt @ ''}''"

definition validName :: "string \<Rightarrow> bool" where
  "validName name \<longleftrightarrow> name \<noteq> [] \<and> list_all nameChar name"

definition validDefault :: "string \<Rightarrow> bool" where
  "validDefault dflt \<longleftrightarrow>
     (case dflt of
        [] \<Rightarrow> True
      | c # [] \<Rightarrow> False
      | c # op # txt \<Rightarrow> c = CHR '':'' \<and> (op = CHR ''?'' \<or> op = CHR ''='') \<and> list_all defaultChar txt)"

text \<open>
  \<open>scanReaches 0 s n\<close>: the search of \<^verbatim>\<open>ReplaceAllFunc\<close> through \<open>s\<close> looks for a match
  at offset \<open>n\<close>, that is, no match that starts earlier covers that offset.
\<close>

fun scanReaches :: "nat \<Rightarrow> string \<Rightarrow> nat \<Rightarrow> bool" where
  "scanReaches skip s 0 = (skip = 0)"
| "scanReaches skip [] (Suc n) = False"
| "scanReaches (Suc skip) (c # cs) (Suc n) = scanReaches skip cs n"
| "scanReaches 0 (c # cs) (Suc n) =
     (case matchAt (c # cs) of
        Some m \<Rightarrow> scanReaches (m - 1) cs n
      | None \<Rightarrow> scanReaches 0 cs n)"

text \<open>An \<^verbatim>\<open>http.NewRequest\<close> that rejects a URL with the malformed escape \<^verbatim>\<open>%zz\<close>,
  as \<^verbatim>\<open>url.Parse\<close> does, and a server that answers 200 to every request.\<close>

definition strictURL :: io where
  "strictURL =
     \<lparr>NewRequest = (\<lambda>m u. if Contains u ''%zz'' then Some ''invalid URL escape'' else None),
      Do = (\<lambda>n req. Inr \<lparr>Response.StatusCode = 200, Body = []\<rparr>),
      Unmarshal = (\<lambda>b. None), mapOrder = (\<lambda>n. [])\<rparr>"

text \<open>The results a loop has produced when it ends, however it ends.\<close>

definition produced :: "flow \<Rightarrow> TestResult list" where
  "produced out = (case out of Continue st \<Rightarrow> results st | Return rs \<Rightarrow> rs | Panic st \<Rightarrow> results st)"

text \<open>
  The results of a run, and the number of probes it started: one per result, and the
  one that panicked when the run ended in a panic.
\<close>

definition outcomes :: "run \<Rightarrow> TestResult list" where
  "outcomes r = (case r of Returned rs \<Rightarrow> rs | Panicked rs \<Rightarrow> rs)"

definition probesExecuted :: "run \<Rightarrow> nat" where
  "probesExecuted r = (case r of Returned rs \<Rightarrow> length rs | Panicked rs \<Rightarrow> length rs + 1)"

text \<open>
  A postcondition per way of ending: \<open>I\<close> for a loop that runs to its end, \<open>R\<close> for the
  results returned from inside it, \<open>Q\<close> for the state of a panic.
\<close>

definition ensures :: "(state \<Rightarrow> bool) \<Rightarrow> (TestResult list \<Rightarrow> bool) \<Rightarrow> (state \<Rightarrow> bool) \<Rightarrow> flow \<Rightarrow> bool" where
  "ensures I R Q out = (case out of Continue st \<Rightarrow> I st | Return rs \<Rightarrow> R rs | Panic st \<Rightarrow> Q st)"

text \<open>The counter equals the number of results; with \<open>within n\<close>, neither exceeds \<open>n\<close>.\<close>

definition counted :: "state \<Rightarrow> bool" where
  "counted st \<longleftrightarrow> requestCount st = int (length (results st))"

definition within :: "int \<Rightarrow> state \<Rightarrow> bool" where
  "within n st \<longleftrightarrow> counted st \<and> int (length (results st)) \<le> n"

abbreviation budgetPost :: "int \<Rightarrow> flow \<Rightarrow> bool" where
  "budgetPost n \<equiv> ensures (within n) (\<lambda>rs. int (length rs) \<le> n) (\<lambda>st. int (length (results st)) < n)"

text \<open>
  \<open>grows s out\<close>: a loop without a budget that starts in \<open>s\<close> only appends results and
  never returns from inside. \<open>sim n out0 out\<close> relates the end \<open>out0\<close> of a loop without a
  budget to the end \<open>out\<close> of the same loop under the budget \<open>n\<close>, from the same state.
\<close>

definition grows :: "state \<Rightarrow> flow \<Rightarrow> bool" where
  "grows s out =
     ensures (\<lambda>s'. counted s' \<and> prefix (results s) (results s')) (\<lambda>rs. False)
          (\<lambda>s'. prefix (results s) (results s')) out"

definition sim :: "nat \<Rightarrow> flow \<Rightarrow> flow \<Rightarrow> bool" where
  "sim n out0 out =
     (case out0 of
        Continue st0 \<Rightarrow>
          (if length (results st0) \<le> n then out = Continue st0
           else out = Return (take n (results st0)))
      | Panic st0 \<Rightarrow>
          (if length (results st0) < n then out = Panic st0
           else out = Return (take n (results st0)))
      | Return rs \<Rightarrow> False)"

text \<open>The same flags with \<^verbatim>\<open>--max 0\<close>, that is, no budget.\<close>

abbreviation unlimited :: "flags \<Rightarrow> flags" where
  "unlimited fl \<equiv> fl\<lparr>maxRequests := 0\<rparr>"

text \<open>
  A configuration with a service that is skipped and a service under the \<^verbatim>\<open>auth\<close>
  plugin, whose first route declares two paths and no method; the flags of a dry run
  with a given budget; and the result a dry run records for a probe of that service.
\<close>

definition demoConfig :: KongConfig where
  "demoConfig =
     \<lparr>Services =
        [\<lparr>Service.Name = ''health-check'', URL = ''http://health:80'', Plugins = [],
          Routes = [\<lparr>Route.Name = ''health'', Paths = [''/health''], Methods = [''GET''],
                     Hosts = [], Plugins = [], Priority = 0\<rparr>]\<rparr>,
         \<lparr>Service.Name = ''users'', URL = ''http://users:80'',
          Plugins = [\<lparr>Plugin.Name = ''auth'', Config = []\<rparr>],
          Routes = [\<lparr>Route.Name = ''user'', Paths = [''/users/(?<user_id>[^/]+)'', ''/users''],
                     Methods = [], Hosts = [], Plugins = [], Priority = 0\<rparr>,
                    \<lparr>Route.Name = ''ping'', Paths = [''/ping''],
                     Methods = [''GET'', ''HEAD''], Hosts = [], Plugins = [], Priority = 0\<rparr>]\<rparr>]\<rparr>"

definition dryFlags :: "int \<Rightarrow> flags" where
  "dryFlags n = defaults\<lparr>dryRun := True, maxRequests := n\<rparr>"

definition dryResult :: "string \<Rightarrow> string \<Rightarrow> string \<Rightarrow> TestResult" where
  "dryResult route path m =
     \<lparr>Service = ''users'', Route = route, Path = path, Method = m, RequiresAuth = True,
      StatusCode = 0, Error = None, Message = ''DRY RUN''\<rparr>"

text \<open>
  \<open>probesWith h st out expected\<close>: what a loop that started in \<open>st\<close> and ended as \<open>out\<close>
  added to the results is, seen through the field \<open>h\<close>, the sequence \<open>expected\<close> when
  the loop ran to its end, and a prefix of it when the budget or a panic ended the loop.
\<close>

definition isContinue :: "flow \<Rightarrow> bool" where
  "isContinue out = (case out of Continue st \<Rightarrow> True | _ \<Rightarrow> False)"

definition probesWith :: "(TestResult \<Rightarrow> 'b) \<Rightarrow> state \<Rightarrow> flow \<Rightarrow> 'b list \<Rightarrow> bool" where
  "probesWith h st out expected \<longleftrightarrow>
     (let before = map h (results st); after = map h (produced out)
      in take (length before) after = before
         \<and> prefix (drop (length before) after) expected
         \<and> (isContinue out \<longrightarrow> drop (length before) after = expected))"



text \<open>
  \<open>materialized w path r\<close>: the path of the result \<open>r\<close> is the declared \<open>path\<close> as the
  loop of lines 162--166 passes it on: the result of \<^verbatim>\<open>expandRegexPath\<close>, under one of
  the iteration orders of \<open>w\<close>, when \<open>path\<close> contains \<^verbatim>\<open>(?<\<close>, and \<open>path\<close> itself
  otherwise. \<open>fromConfig w config r\<close>: \<open>r\<close> has the names of a service and of a route of
  it in \<open>config\<close>, and its path is materialized from a path that route declares.
\<close>

definition materialized :: "io \<Rightarrow> string \<Rightarrow> TestResult \<Rightarrow> bool" where
  "materialized w path r \<longleftrightarrow>
     (if Contains path ''(?<'' then (\<exists>n. Path r = expandRegexPath (mapOrder w n) path)
      else Path r = path)"

definition fromConfig :: "io \<Rightarrow> KongConfig \<Rightarrow> TestResult \<Rightarrow> bool" where
  "fromConfig w config r \<longleftrightarrow>
     (\<exists>service \<in> set (Services config). \<exists>route \<in> set (Routes service). \<exists>path \<in> set (Paths route).
        Service r = Service.Name service \<and> Route r = Route.Name route \<and> materialized w path r)"

text \<open>A configuration whose one route declares a path with an unnamed capture group.\<close>

definition catchallConfig :: KongConfig where
  "catchallConfig =
     \<lparr>Services =
        [\<lparr>Service.Name = ''files'', URL = ''http://files:80'', Plugins = [],
          Routes = [\<lparr>Route.Name = ''catchall'', Paths = [''/catchall/(.*)''], Methods = [''GET''],
                     Hosts = [], Plugins = [], Priority = 0\<rparr>]\<rparr>]\<rparr>"

section \<open>Properties of the auth classification\<close>

lemma pluginLoop_iff: "pluginLoop ps \<longleftrightarrow> (\<exists>p \<in> set ps. Plugin.Name p = ''auth'')"
  by (induction ps) auto

text \<open>
  C6. \<^verbatim>\<open>hasAuthPlugin\<close> answers true exactly when a plugin named \<^verbatim>\<open>auth\<close> is in the
  route's plugin list or in the service's plugin list; when no plugin of the two lists has
  that name, it answers false.
\<close>

theorem hasAuthPlugin_iff:
  "(hasAuthPlugin route service \<longleftrightarrow>
      (\<exists>p \<in> set (Route.Plugins route) \<union> set (Service.Plugins service). Plugin.Name p = ''auth''))
   \<and> ((\<forall>p \<in> set (Route.Plugins route) \<union> set (Service.Plugins service). Plugin.Name p \<noteq> ''auth'')
        \<longrightarrow> \<not> hasAuthPlugin route service)"
  unfolding hasAuthPlugin_def pluginLoop_iff by auto

theorem hasAuthPlugin_iff_witness:
  "\<not> hasAuthPlugin
       \<lparr>Route.Name = ''test-route'', Paths = [], Methods = [], Hosts = [],
        Plugins = [\<lparr>Plugin.Name = ''rate-limiting'', Config = []\<rparr>, \<lparr>Plugin.Name = ''cors'', Config = []\<rparr>],
        Priority = 0\<rparr>
       \<lparr>Service.Name = [], URL = [], Plugins = [], Routes = []\<rparr>
   \<and> hasAuthPlugin
       \<lparr>Route.Name = ''test-route'', Paths = [], Methods = [], Hosts = [], Plugins = [], Priority = 0\<rparr>
       \<lparr>Service.Name = [], URL = [],
        Plugins = [\<lparr>Plugin.Name = ''cors'', Config = []\<rparr>, \<lparr>Plugin.Name = ''auth'', Config = []\<rparr>],
        Routes = []\<rparr>"
  using hasAuthPlugin_iff [of
       "\<lparr>Route.Name = ''test-route'', Paths = [], Methods = [], Hosts = [],
        Plugins = [\<lparr>Plugin.Name = ''rate-limiting'', Config = []\<rparr>, \<lparr>Plugin.Name = ''cors'', Config = []\<rparr>],
        Priority = 0\<rparr>"
       "\<lparr>Service.Name = [], URL = [], Plugins = [], Routes = []\<rparr>"]
    hasAuthPlugin_iff [of
       "\<lparr>Route.Name = ''test-route'', Paths = [], Methods = [], Hosts = [], Plugins = [], Priority = 0\<rparr>"
       "\<lparr>Service.Name = [], URL = [],
        Plugins = [\<lparr>Plugin.Name = ''cors'', Config = []\<rparr>, \<lparr>Plugin.Name = ''auth'', Config = []\<rparr>],
        Routes = []\<rparr>"]
  by simp

section \<open>Properties of the summary\<close>

lemma tally_fields:
  "successful (tally r s) = successful s + (if 200 \<le> StatusCode r \<and> StatusCode r < 400 then 1 else 0)"
  "authFailed (tally r s) = authFailed s + (if StatusCode r = 401 then 1 else 0)"
  "otherErrors (tally r s) = otherErrors s +
     (if \<not> (200 \<le> StatusCode r \<and> StatusCode r < 400) \<and> StatusCode r \<noteq> 401
         \<and> (400 \<le> StatusCode r \<or> Error r \<noteq> None) then 1 else 0)"
  by (auto simp: tally_def Let_def)

lemma tallyLoop_successful:
  "successful (tallyLoop rs s) =
     successful s + int (length (filter (\<lambda>r. 200 \<le> StatusCode r \<and> StatusCode r < 400) rs))"
  by (induction rs arbitrary: s) (simp_all add: tally_fields)

lemma tallyLoop_authFailed:
  "authFailed (tallyLoop rs s) = authFailed s + int (length (filter (\<lambda>r. StatusCode r = 401) rs))"
  by (induction rs arbitrary: s) (simp_all add: tally_fields)

lemma tallyLoop_otherErrors:
  "otherErrors (tallyLoop rs s) =
     otherErrors s + int (length (filter (\<lambda>r. \<not> (200 \<le> StatusCode r \<and> StatusCode r < 400)
        \<and> StatusCode r \<noteq> 401 \<and> (400 \<le> StatusCode r \<or> Error r \<noteq> None)) rs))"
  by (induction rs arbitrary: s) (simp_all add: tally_fields)

lemma printSummary_counts:
  "successful (printSummary rs) = int (length (filter (\<lambda>r. 200 \<le> StatusCode r \<and> StatusCode r < 400) rs))"
  "authFailed (printSummary rs) = int (length (filter (\<lambda>r. StatusCode r = 401) rs))"
  "otherErrors (printSummary rs) =
     int (length (filter (\<lambda>r. \<not> (200 \<le> StatusCode r \<and> StatusCode r < 400)
        \<and> StatusCode r \<noteq> 401 \<and> (400 \<le> StatusCode r \<or> Error r \<noteq> None)) rs))"
  by (simp_all add: printSummary_def tallyLoop_successful tallyLoop_authFailed tallyLoop_otherErrors)

lemma problematicLoop_filter:
  "problematicLoop rs = filter (\<lambda>r. StatusCode r = 401 \<and> \<not> RequiresAuth r) rs"
  by (induction rs) auto

lemma printSummary_problematic:
  "problematic (printSummary rs) = filter (\<lambda>r. StatusCode r = 401 \<and> \<not> RequiresAuth r) rs"
  by (simp add: printSummary_def problematicLoop_filter)

text \<open>A result of \<^verbatim>\<open>testEndpoint\<close> that holds an error holds the status zero.\<close>

lemma testEndpoint_error_status:
  assumes "testEndpoint fl w n sv rt p m a = Inr r" and "Error r \<noteq> None"
  shows "StatusCode r = 0"
  using assms
  by (auto simp: testEndpoint_def Let_def http_NewRequest_def
           split: if_splits option.splits sum.splits prod.splits)

lemma testEndpoint_offline:
  "testEndpoint defaults offline 0 ''svc'' ''route'' ''/x'' ''GET'' False
     = Inr (outcome 0 False (Some (DoError ''connection refused'')))"
  by (simp add: testEndpoint_def defaults_def offline_def outcome_def http_NewRequest_def Let_def)

text \<open>
  C2. How the summary counts one outcome \<open>r\<close>, after any outcomes \<open>rs\<close>: a status in
  [200, 400) adds one success and nothing else; the status 401 adds one auth failure; any
  other status of 400 or more adds one other error; an outcome that holds an error adds
  one other error, for every status outside [200, 400) and other than 401, and so for
  every outcome that \<^verbatim>\<open>testEndpoint\<close> returns with an error; the status 0 with no error
  adds nothing to any of the three counters.
\<close>

theorem summary_classification:
  "(200 \<le> StatusCode r \<and> StatusCode r < 400 \<longrightarrow> bucketDelta rs r = (1, 0, 0))
   \<and> (StatusCode r = 401 \<longrightarrow> bucketDelta rs r = (0, 1, 0))
   \<and> (400 \<le> StatusCode r \<and> StatusCode r \<noteq> 401 \<longrightarrow> bucketDelta rs r = (0, 0, 1))
   \<and> (Error r \<noteq> None \<and> \<not> (200 \<le> StatusCode r \<and> StatusCode r < 400) \<and> StatusCode r \<noteq> 401
        \<longrightarrow> bucketDelta rs r = (0, 0, 1))
   \<and> (testEndpoint fl w n sv rt p m a = Inr r \<and> Error r \<noteq> None \<longrightarrow> bucketDelta rs r = (0, 0, 1))
   \<and> (StatusCode r = 0 \<and> Error r = None \<longrightarrow> bucketDelta rs r = (0, 0, 0))"
proof -
  have "StatusCode r = 0" if "testEndpoint fl w n sv rt p m a = Inr r" "Error r \<noteq> None"
    using that by (rule testEndpoint_error_status)
  then show ?thesis
    by (auto simp: bucketDelta_def printSummary_counts)
qed

theorem summary_classification_witness:
  "bucketDelta [outcome 500 False None] (outcome 204 False None) = (1, 0, 0)
   \<and> bucketDelta [outcome 500 False None] (outcome 401 True None) = (0, 1, 0)
   \<and> bucketDelta [outcome 500 False None] (outcome 404 False None) = (0, 0, 1)
   \<and> bucketDelta [outcome 500 False None] (outcome 0 False (Some (DoError ''connection refused''))) = (0, 0, 1)
   \<and> bucketDelta [outcome 500 False None] (outcome 0 False None) = (0, 0, 0)"
  using summary_classification [of "outcome 204 False None" "[outcome 500 False None]"]
    summary_classification [of "outcome 401 True None" "[outcome 500 False None]"]
    summary_classification [of "outcome 404 False None" "[outcome 500 False None]"]
    summary_classification [of "outcome 0 False (Some (DoError ''connection refused''))"
       "[outcome 500 False None]" defaults offline 0 "''svc''" "''route''" "''/x''" "''GET''" False]
    summary_classification [of "outcome 0 False None" "[outcome 500 False None]"]
    testEndpoint_offline
  by (simp add: outcome_def)

lemma bucketSum_printSummary:
  "bucketSum (printSummary rs) + int (length (filter (\<lambda>r. StatusCode r < 200 \<and> Error r = None) rs))
     = int (length rs)"
  unfolding bucketSum_def printSummary_counts
  by (induction rs) auto

text \<open>
  C3, as the code has it. The three counters never add up to more than the number of
  outcomes, and they add up to exactly that number if and only if no outcome has a status
  below 200 and no error. (An outcome with the status 101 and no error is counted
  nowhere, as one with the status 0 is.)
\<close>

theorem summary_sum_amended:
  "bucketSum (printSummary rs) \<le> int (length rs)
   \<and> (bucketSum (printSummary rs) = int (length rs)
        \<longleftrightarrow> (\<forall>r \<in> set rs. \<not> (StatusCode r < 200 \<and> Error r = None)))"
proof -
  let ?k = "length (filter (\<lambda>r. StatusCode r < 200 \<and> Error r = None) rs)"
  have "(?k = 0) = (\<forall>r \<in> set rs. \<not> (StatusCode r < 200 \<and> Error r = None))"
    by (simp add: filter_empty_conv)
  then show ?thesis
    using bucketSum_printSummary [of rs] by auto
qed

theorem summary_sum_amended_witness:
  "bucketSum (printSummary [outcome 200 False None, outcome 401 False None,
                            outcome 0 False (Some (DoError ''timeout''))]) = 3
   \<and> bucketSum (printSummary [outcome 200 False None, outcome 101 False None]) = 1"
  using summary_sum_amended [of "[outcome 200 False None, outcome 401 False None,
                                  outcome 0 False (Some (DoError ''timeout''))]"]
    summary_sum_amended [of "[outcome 200 False None, outcome 101 False None]"]
  by (simp add: outcome_def bucketSum_def printSummary_counts)

text \<open>
  The claim as the specification words it fails: the one outcome below has the status
  101, so no outcome has the status 0, and the counters add up to 0, not to 1.
\<close>

theorem summary_sum_counterexample:
  "StatusCode (outcome 101 False None) \<noteq> 0
   \<and> bucketSum (printSummary [outcome 101 False None]) < int (length [outcome 101 False None])"
  by (simp add: bucketSum_def printSummary_counts outcome_def)

text \<open>
  C8. The anomaly list holds exactly the outcomes with the status 401 and a false
  \<^verbatim>\<open>RequiresAuth\<close>, in their order: every entry is such an outcome, no outcome with a
  true \<^verbatim>\<open>RequiresAuth\<close> is an entry, and every such outcome is an entry.
\<close>

theorem anomaly_list:
  "problematic (printSummary rs) = filter (\<lambda>r. StatusCode r = 401 \<and> \<not> RequiresAuth r) rs
   \<and> (\<forall>r \<in> set (problematic (printSummary rs)). StatusCode r = 401 \<and> \<not> RequiresAuth r)
   \<and> (\<forall>r \<in> set rs. RequiresAuth r \<longrightarrow> r \<notin> set (problematic (printSummary rs)))
   \<and> (\<forall>r \<in> set rs. StatusCode r = 401 \<and> \<not> RequiresAuth r \<longrightarrow> r \<in> set (problematic (printSummary rs)))"
  by (auto simp: printSummary_problematic)

theorem anomaly_list_witness:
  "problematic (printSummary [outcome 401 True None, outcome 401 False None, outcome 200 False None])
     = [outcome 401 False None]"
  using anomaly_list [of "[outcome 401 True None, outcome 401 False None, outcome 200 False None]"]
  by (simp add: outcome_def)

section \<open>Properties of the template resolution\<close>

lemma takeWhile_run:
  "list_all P xs \<Longrightarrow> \<not> P y \<Longrightarrow> takeWhile P (xs @ y # ys) = xs"
  by (induction xs) auto

lemma dropWhile_run:
  "list_all P xs \<Longrightarrow> \<not> P y \<Longrightarrow> dropWhile P (xs @ y # ys) = y # ys"
  by (induction xs) auto

lemma matchAt_placeholder:
  assumes "validName name" and "validDefault dflt"
  shows "matchAt (placeholder name dflt @ post) = Some (length (placeholder name dflt))"
proof (cases dflt)
  case Nil
  have "takeWhile nameChar (name @ CHR ''}'' # post) = name"
       "dropWhile nameChar (name @ CHR ''}'' # post) = CHR ''}'' # post"
    using assms(1) by (simp_all add: validName_def takeWhile_run dropWhile_run nameChar_def)
  with Nil assms(1) show ?thesis
    by (simp add: matchAt_def placeholder_def validName_def)
next
  case (Cons c rest)
  with assms(2) obtain op tx where d: "dflt = CHR '':'' # op # tx"
    and op: "op = CHR ''?'' \<or> op = CHR ''=''" and tx: "list_all defaultChar tx"
    by (auto simp: validDefault_def split: list.splits)
  have "takeWhile nameChar (name @ CHR '':'' # op # tx @ CHR ''}'' # post) = name"
       "dropWhile nameChar (name @ CHR '':'' # op # tx @ CHR ''}'' # post) = CHR '':'' # op # tx @ CHR ''}'' # post"
    using assms(1) by (simp_all add: validName_def takeWhile_run dropWhile_run nameChar_def)
  moreover have "takeWhile defaultChar (tx @ CHR ''}'' # post) = tx"
       "dropWhile defaultChar (tx @ CHR ''}'' # post) = CHR ''}'' # post"
    using tx by (simp_all add: takeWhile_run dropWhile_run defaultChar_def)
  ultimately show ?thesis
    using d op assms(1) by (auto simp: matchAt_def placeholder_def validName_def)
qed

lemma matchAt_SomeD:
  assumes "matchAt s = Some m"
  shows "\<exists>name dflt post. validName name \<and> validDefault dflt
            \<and> s = placeholder name dflt @ post \<and> m = length (placeholder name dflt)"
proof -
  from assms obtain r where s: "s = CHR ''$'' # CHR ''{'' # r"
    by (auto simp: matchAt_def split: list.splits if_splits)
  let ?name = "takeWhile nameChar r"
  let ?r1 = "dropWhile nameChar r"
  from assms s have ne: "?name \<noteq> []"
    by (auto simp: matchAt_def Let_def split: if_splits)
  have vn: "validName ?name"
    using ne by (auto simp: validName_def list_all_iff dest: set_takeWhileD)
  from assms s ne obtain d r2 where r1: "?r1 = d # r2"
    by (auto simp: matchAt_def Let_def split: list.splits if_splits)
  have r: "r = ?name @ d # r2" using r1 by (metis takeWhile_dropWhile_id)
  have nd: "\<not> nameChar d" using r1 by (metis hd_dropWhile list.sel(1) list.simps(3))
  show ?thesis
  proof (cases "d = CHR ''}''")
    case True
    with assms s ne r1 have "m = length ?name + 3"
      by (auto simp: matchAt_def Let_def)
    moreover have "s = placeholder ?name [] @ r2"
      using s r True by (simp add: placeholder_def)
    moreover have "validDefault []" by (simp add: validDefault_def)
    ultimately show ?thesis using vn
      by (intro exI[of _ ?name] exI[of _ "[]"] exI[of _ r2]) (simp add: placeholder_def)
  next
    case False
    with nd have dc: "d = CHR '':''" by (simp add: nameChar_def)
    from assms s ne r1 False obtain op r3 where r2: "r2 = op # r3"
      and op: "op = CHR ''?'' \<or> op = CHR ''=''"
      by (auto simp: matchAt_def Let_def split: list.splits if_splits)
    let ?txt = "takeWhile defaultChar r3"
    from assms s ne r1 False r2 op obtain e r4 where r3d: "dropWhile defaultChar r3 = e # r4"
      and m: "m = length ?name + length ?txt + 5"
      by (auto simp: matchAt_def Let_def split: list.splits if_splits)
    have "\<not> defaultChar e" using r3d by (metis hd_dropWhile list.sel(1) list.simps(3))
    then have e: "e = CHR ''}''" by (simp add: defaultChar_def)
    have r3: "r3 = ?txt @ CHR ''}'' # r4" using r3d e by (metis takeWhile_dropWhile_id)
    have vd: "validDefault (CHR '':'' # op # ?txt)"
      using op by (auto simp: validDefault_def list_all_iff dest: set_takeWhileD)
    have "s = placeholder ?name (CHR '':'' # op # ?txt) @ r4"
      using s r dc r2 r3 by (simp add: placeholder_def)
    moreover have "m = length (placeholder ?name (CHR '':'' # op # ?txt))"
      using m by (simp add: placeholder_def)
    ultimately show ?thesis using vn vd by blast
  qed
qed

lemma matchAt_bounds:
  assumes "matchAt s = Some m"
  shows "0 < m" and "m \<le> length s" and "matchAt (take m s @ u) = Some m"
proof -
  from matchAt_SomeD [OF assms] obtain name dflt post where
    v: "validName name" "validDefault dflt" and s: "s = placeholder name dflt @ post"
    and m: "m = length (placeholder name dflt)" by blast
  show "0 < m" using m by (simp add: placeholder_def)
  show "m \<le> length s" using s m by simp
  show "matchAt (take m s @ u) = Some m"
    using matchAt_placeholder [OF v, of u] s m by simp
qed

lemma ReplaceAllFunc_skip:
  "ReplaceAllFunc repl (length xs) (xs @ ys) = ReplaceAllFunc repl 0 ys"
  by (induction xs) auto

lemma scanReaches_skip_le: "scanReaches k s n \<Longrightarrow> k \<le> n"
proof (induction k s n rule: scanReaches.induct)
  case (4 c cs n)
  then show ?case by simp
qed auto

lemma ReplaceAllFunc_split:
  "scanReaches k (pre @ s) (length pre) \<Longrightarrow>
   ReplaceAllFunc repl k (pre @ s) = ReplaceAllFunc repl k pre @ ReplaceAllFunc repl 0 s"
proof (induction pre arbitrary: k)
  case Nil
  then show ?case by simp
next
  case (Cons c cs)
  show ?case
  proof (cases k)
    case (Suc k')
    with Cons show ?thesis by simp
  next
    case 0
    show ?thesis
    proof (cases "matchAt (c # cs @ s)")
      case None
      have "matchAt (c # cs) = None"
      proof (rule ccontr)
        assume "matchAt (c # cs) \<noteq> None"
        then obtain m where m: "matchAt (c # cs) = Some m" by auto
        from matchAt_bounds(3) [OF m, of "drop m (c # cs) @ s"]
        have "matchAt ((c # cs) @ s) = Some m"
          by (metis append.assoc append_take_drop_id)
        with None show False by simp
      qed
      with None 0 Cons show ?thesis by simp
    next
      case (Some m)
      with 0 Cons.prems have reach: "scanReaches (m - 1) (cs @ s) (length cs)" by simp
      then have le: "m - 1 \<le> length cs" by (rule scanReaches_skip_le)
      have pos: "0 < m" using matchAt_bounds(1) [OF Some] .
      have mle: "m \<le> length (c # cs)" using le pos by simp
      have tk: "take m (c # cs @ s) = take m (c # cs)" using mle
        by (metis append_Cons take_append diff_is_0_eq' take_0 append_Nil2)
      from matchAt_bounds(3) [OF Some, of "drop m (c # cs)"]
      have m2: "matchAt (c # cs) = Some m"
        using tk by (metis append_take_drop_id)
      show ?thesis
        using 0 Some m2 tk Cons.IH [OF reach] by simp
    qed
  qed
qed


lemma Split_nonempty: "Split s sep \<noteq> []"
  by (induction s) (auto split: list.splits)

lemma Split_hd:
  "sep \<notin> set xs \<Longrightarrow> ys = [] \<or> hd ys = sep \<Longrightarrow> hd (Split (xs @ ys) sep) = xs"
proof (induction xs)
  case Nil
  then show ?case by (cases ys) auto
next
  case (Cons x xs)
  then show ?case by (auto simp: Split_nonempty split: list.splits)
qed

lemma substitute_placeholder:
  assumes "validName name" and "validDefault dflt"
  shows "substitute env (placeholder name dflt) =
           (if Getenv env name \<noteq> [] then Getenv env name
            else if Contains name ''SERVICE_ADDRESS'' then ''http://services.sms.community:10000''
            else ''http://placeholder'')"
proof -
  have inner: "take (length (placeholder name dflt) - 1 - 2) (drop 2 (placeholder name dflt)) = name @ dflt"
    by (simp add: placeholder_def)
  have "CHR '':'' \<notin> set name"
    using assms(1) by (auto simp: validName_def list_all_iff nameChar_def)
  moreover have "dflt = [] \<or> hd dflt = CHR '':''"
    using assms(2) by (auto simp: validDefault_def split: list.splits)
  ultimately have "hd (Split (name @ dflt) CHR '':'') = name"
    by (rule Split_hd)
  then show ?thesis
    unfolding substitute_def inner by (simp add: Let_def)
qed

lemma matchAt_not_dollar: "c \<noteq> CHR ''$'' \<Longrightarrow> matchAt (c # cs) = None"
  by (simp add: matchAt_def split: list.splits)

lemma scanReaches_no_dollar:
  "CHR ''$'' \<notin> set pre \<Longrightarrow> scanReaches 0 (pre @ s) (length pre)"
  by (induction pre) (auto simp: matchAt_not_dollar)

text \<open>
  C4, as the code has it. A placeholder \<^verbatim>\<open>${NAME}\<close> or \<^verbatim>\<open>${NAME:OP DEFAULT}\<close> whose
  operator is \<^verbatim>\<open>?\<close> or \<^verbatim>\<open>=\<close>, and that the search reaches, with any text before and
  after it, is replaced by the value of the environment variable of its name when that
  variable is set and not empty; otherwise by the fixed service address when the name
  contains \<^verbatim>\<open>SERVICE_ADDRESS\<close>; otherwise by the fixed placeholder string. The default
  part \<open>dflt\<close> does not occur in the result.
\<close>

theorem handleTemplating_placeholder:
  assumes "validName name" and "validDefault dflt"
    and "scanReaches 0 (pre @ placeholder name dflt @ post) (length pre)"
  shows "handleTemplating env (pre @ placeholder name dflt @ post) =
           handleTemplating env pre
           @ (if env name \<noteq> None \<and> env name \<noteq> Some [] then the (env name)
              else if Contains name ''SERVICE_ADDRESS'' then ''http://services.sms.community:10000''
              else ''http://placeholder'')
           @ handleTemplating env post"
proof -
  let ?ph = "placeholder name dflt"
  obtain c cs where ph: "?ph = c # cs" by (simp add: placeholder_def)
  have m: "matchAt (?ph @ post) = Some (length ?ph)"
    using assms(1,2) by (rule matchAt_placeholder)
  have "ReplaceAllFunc (substitute env) 0 (?ph @ post) =
          substitute env ?ph @ ReplaceAllFunc (substitute env) (length cs) (cs @ post)"
    using m ph by simp
  also have "\<dots> = substitute env ?ph @ ReplaceAllFunc (substitute env) 0 post"
    by (simp only: ReplaceAllFunc_skip)
  finally have here: "ReplaceAllFunc (substitute env) 0 (?ph @ post) =
          substitute env ?ph @ ReplaceAllFunc (substitute env) 0 post" .
  have "Getenv env name = (if env name \<noteq> None \<and> env name \<noteq> Some [] then the (env name) else [])"
    by (cases "env name") (simp_all add: Getenv_def)
  then have sub: "substitute env ?ph =
           (if env name \<noteq> None \<and> env name \<noteq> Some [] then the (env name)
            else if Contains name ''SERVICE_ADDRESS'' then ''http://services.sms.community:10000''
            else ''http://placeholder'')"
    using substitute_placeholder [OF assms(1,2), of env] by (cases "env name") simp_all
  show ?thesis
    unfolding handleTemplating_def
    using ReplaceAllFunc_split [OF assms(3), of "substitute env"] here sub by simp
qed

theorem handleTemplating_placeholder_witness:
  "handleTemplating Map.empty ''url: ${API_URL:=http://localhost:8080}'' = ''url: http://placeholder''
   \<and> handleTemplating [''API_URL'' \<mapsto> ''https://production.com''] ''url: ${API_URL:=http://localhost:8080}''
       = ''url: https://production.com''
   \<and> handleTemplating Map.empty ''a ${X} url: ${MY_SERVICE_ADDRESS:=http://localhost:1}!''
       = ''a http://placeholder url: http://services.sms.community:10000!''"
proof -
  have n1: "validName ''API_URL''" and d1: "validDefault '':=http://localhost:8080''"
    and n2: "validName ''MY_SERVICE_ADDRESS''" and d2: "validDefault '':=http://localhost:1''"
    by (simp_all add: validName_def validDefault_def nameChar_def defaultChar_def)
  have r1: "scanReaches 0 (''url: '' @ placeholder ''API_URL'' '':=http://localhost:8080'' @ []) (length ''url: '')"
    by (rule scanReaches_no_dollar) simp
  have r2: "scanReaches 0 (''a ${X} url: '' @ placeholder ''MY_SERVICE_ADDRESS'' '':=http://localhost:1'' @ ''!'')
              (length ''a ${X} url: '')"
    by code_simp
  have p1: "handleTemplating env ''url: '' = ''url: ''" for env
    by (simp add: handleTemplating_def matchAt_def)
  have p2: "handleTemplating Map.empty ''a ${X} url: '' = ''a http://placeholder url: ''"
    by code_simp
  have p3: "handleTemplating Map.empty ''!'' = ''!''" "handleTemplating env [] = []" for env
    by (simp_all add: handleTemplating_def matchAt_def)
  show ?thesis
    using handleTemplating_placeholder [OF n1 d1 r1, of Map.empty]
      handleTemplating_placeholder [OF n1 d1 r1, of "[''API_URL'' \<mapsto> ''https://production.com'']"]
      handleTemplating_placeholder [OF n2 d2 r2, of Map.empty]
    by (simp add: p1 p2 p3 placeholder_def)
qed

text \<open>With any other operator after the colon, the pattern of line 105 does not match.\<close>

lemma matchAt_other_operator:
  assumes "validName name" and "op \<noteq> CHR ''?''" and "op \<noteq> CHR ''=''"
  shows "matchAt (''${'' @ name @ CHR '':'' # op # rest) = None"
proof -
  have "takeWhile nameChar (name @ CHR '':'' # op # rest) = name"
       "dropWhile nameChar (name @ CHR '':'' # op # rest) = CHR '':'' # op # rest"
    using assms(1) by (simp_all add: validName_def takeWhile_run dropWhile_run nameChar_def)
  then show ?thesis
    using assms by (simp add: matchAt_def validName_def)
qed

text \<open>
  The claim as the specification words it, for every operator, fails: with the operator
  \<^verbatim>\<open>-\<close> and the variable set to a value that is not empty, nothing is substituted
  and the text stays as it is.
\<close>

theorem handleTemplating_operator_counterexample:
  "handleTemplating [''API_URL'' \<mapsto> ''https://api.example.com''] ''url: ${API_URL:-http://localhost:8080}''
     = ''url: ${API_URL:-http://localhost:8080}''"
  by code_simp

section \<open>Properties of one probe\<close>

text \<open>
  C10. Outside dry-run mode, when \<^verbatim>\<open>http.NewRequest\<close> fails for a probe whose method
  is POST, PUT or PATCH, \<^verbatim>\<open>testEndpoint\<close> panics on the nil request and returns no
  result. A result that records the error of \<^verbatim>\<open>http.NewRequest\<close> has a method other
  than these three; and for every other method the failure is recorded in the result.
\<close>

theorem testEndpoint_nil_request:
  "(\<not> dryRun fl \<and> (m = ''POST'' \<or> m = ''PUT'' \<or> m = ''PATCH'')
      \<and> NewRequest w m (baseURL fl @ path) = Some e
     \<longrightarrow> testEndpoint fl w n sv rt path m a = Inl NilPointerDereference)
   \<and> (testEndpoint fl w n sv rt path m a = Inr r \<and> Error r = Some (NewRequestError e)
     \<longrightarrow> m \<noteq> ''POST'' \<and> m \<noteq> ''PUT'' \<and> m \<noteq> ''PATCH'' \<and> NewRequest w m (baseURL fl @ path) = Some e)
   \<and> (\<not> dryRun fl \<and> m \<noteq> ''POST'' \<and> m \<noteq> ''PUT'' \<and> m \<noteq> ''PATCH''
      \<and> NewRequest w m (baseURL fl @ path) = Some e
     \<longrightarrow> testEndpoint fl w n sv rt path m a =
           Inr \<lparr>Service = sv, Route = rt, Path = path, Method = m, RequiresAuth = a,
                StatusCode = 0, Error = Some (NewRequestError e), Message = []\<rparr>)"
proof (intro conjI impI)
  assume "\<not> dryRun fl \<and> (m = ''POST'' \<or> m = ''PUT'' \<or> m = ''PATCH'')
      \<and> NewRequest w m (baseURL fl @ path) = Some e"
  then show "testEndpoint fl w n sv rt path m a = Inl NilPointerDereference"
    by (auto simp: testEndpoint_def http_NewRequest_def Let_def)
next
  assume h: "testEndpoint fl w n sv rt path m a = Inr r \<and> Error r = Some (NewRequestError e)"
  then have nd: "\<not> dryRun fl"
    by (auto simp: testEndpoint_def)
  show "m \<noteq> ''POST''" "m \<noteq> ''PUT''" "m \<noteq> ''PATCH''" "NewRequest w m (baseURL fl @ path) = Some e"
    using h nd
    by (auto simp: testEndpoint_def http_NewRequest_def Let_def
             split: option.splits sum.splits if_splits)
next
  assume "\<not> dryRun fl \<and> m \<noteq> ''POST'' \<and> m \<noteq> ''PUT'' \<and> m \<noteq> ''PATCH''
      \<and> NewRequest w m (baseURL fl @ path) = Some e"
  then show "testEndpoint fl w n sv rt path m a =
           Inr \<lparr>Service = sv, Route = rt, Path = path, Method = m, RequiresAuth = a,
                StatusCode = 0, Error = Some (NewRequestError e), Message = []\<rparr>"
    by (simp add: testEndpoint_def http_NewRequest_def Let_def)
qed

theorem testEndpoint_nil_request_witness:
  "testEndpoint defaults strictURL 0 ''svc'' ''route'' ''/a%zz'' ''POST'' False = Inl NilPointerDereference
   \<and> testEndpoint defaults strictURL 0 ''svc'' ''route'' ''/a%zz'' ''GET'' False =
       Inr \<lparr>Service = ''svc'', Route = ''route'', Path = ''/a%zz'', Method = ''GET'', RequiresAuth = False,
            StatusCode = 0, Error = Some (NewRequestError ''invalid URL escape''), Message = []\<rparr>"
proof -
  have e: "NewRequest strictURL m (baseURL defaults @ ''/a%zz'') = Some ''invalid URL escape''" for m
    by (simp add: strictURL_def defaults_def)
  have nd: "\<not> dryRun defaults" by (simp add: defaults_def)
  show ?thesis
    using testEndpoint_nil_request [of defaults "''POST''" strictURL "''/a%zz''" "''invalid URL escape''"
        0 "''svc''" "''route''" False]
      testEndpoint_nil_request [of defaults "''GET''" strictURL "''/a%zz''" "''invalid URL escape''"
        0 "''svc''" "''route''" False]
      e nd
    by simp
qed


section \<open>Properties of the path materialization\<close>

text \<open>The orders \<open>rangeOrder\<close> produces are exactly the permutations of the entries.\<close>

lemma mset_rangeOrder: "mset (rangeOrder ks xs) = mset xs"
proof (induction ks xs rule: rangeOrder.induct)
  case (3 k ks x xs)
  let ?ys = "x # xs"
  let ?i = "k mod length ?ys"
  have i: "?i < length ?ys" by simp
  have "mset ?ys = mset (take ?i ?ys @ ?ys ! ?i # drop (Suc ?i) ?ys)"
    using id_take_nth_drop [OF i] by simp
  then show ?case using 3 by (simp add: Let_def)
qed simp_all

lemma rangeOrder_complete: "mset ys = mset xs \<Longrightarrow> \<exists>ks. rangeOrder ks xs = ys"
proof (induction ys arbitrary: xs)
  case Nil
  then show ?case by (intro exI[of _ "[]"]) simp
next
  case (Cons y ys)
  then have "y \<in> set xs" by (metis list.set_intros(1) set_mset_mset)
  then obtain i where i: "i < length xs" "xs ! i = y" by (auto simp: in_set_conv_nth)
  let ?rest = "take i xs @ drop (Suc i) xs"
  have "mset xs = mset ?rest + {#y#}"
    using id_take_nth_drop [OF i(1)] i(2) by (metis add_mset_add_single mset.simps(2) mset_append union_mset_add_mset_right)
  with Cons.prems have "mset ys = mset ?rest" by simp
  from Cons.IH [OF this] obtain ks where ks: "rangeOrder ks ?rest = ys" by blast
  obtain x xs' where xs: "xs = x # xs'" using i(1) by (cases xs) auto
  have "rangeOrder (i # ks) xs = y # ys"
    using i ks unfolding xs by (simp add: Let_def)
  then show ?case by blast
qed

text \<open>
  C5. The result of \<^verbatim>\<open>expandRegexPath\<close> depends on the order in which the runtime
  iterates over the map: on the path of the repository's own unit test, the order as
  written gives the expected \<^verbatim>\<open>/tests/test-id-123\<close>, and an order that visits the bare
  hexadecimal class first leaves the named capture unexpanded.
\<close>

theorem expandRegexPath_order_dependent:
  "expandRegexPath [] ''/tests/(?<test_id>[0-9a-fA-F-]+)'' = ''/tests/test-id-123''
   \<and> expandRegexPath [6] ''/tests/(?<test_id>[0-9a-fA-F-]+)'' = ''/tests/(?<test_id>abc123def456)''"
  by code_simp

section \<open>Properties of the control loop\<close>

lemma ensures_simps [simp]:
  "ensures I R Q (Continue st) = I st"
  "ensures I R Q (Return rs) = R rs"
  "ensures I R Q (Panic st) = Q st"
  by (simp_all add: ensures_def)

text \<open>A loop establishes a postcondition that its body preserves.\<close>

lemma forEach_rule:
  assumes "I st"
    and "\<And>x s. x \<in> set xs \<Longrightarrow> I s \<Longrightarrow> ensures I R Q (body' x s)"
  shows "ensures I R Q (forEach body' xs st)"
  using assms
proof (induction xs arbitrary: st)
  case Nil
  then show ?case by simp
next
  case (Cons x xs)
  have step: "ensures I R Q (body' x st)" using Cons.prems by simp
  show ?case
  proof (cases "body' x st")
    case (Continue st')
    with step have "I st'" by simp
    then have "ensures I R Q (forEach body' xs st')"
      using Cons.prems(2) by (intro Cons.IH) simp_all
    with Continue show ?thesis by simp
  next
    case (Return rs)
    with step show ?thesis by simp
  next
    case (Panic st')
    with step show ?thesis by simp
  qed
qed

lemma methodBody_budget:
  assumes "0 < maxRequests fl" and "within (maxRequests fl) st"
  shows "budgetPost (maxRequests fl) (methodBody fl w sv rt p a m st)"
  using assms
  by (auto simp: methodBody_def within_def counted_def split: sum.splits)

lemma pathBody_budget:
  assumes "0 < maxRequests fl" and "within (maxRequests fl) st"
  shows "budgetPost (maxRequests fl) (pathBody fl w sv rt a ms p st)"
  unfolding pathBody_def Let_def
  using assms by (intro forEach_rule) (simp_all add: methodBody_budget)

lemma routeBody_budget:
  assumes "0 < maxRequests fl" and "within (maxRequests fl) st"
  shows "budgetPost (maxRequests fl) (routeBody fl w sv rt st)"
  unfolding routeBody_def Let_def
  using assms by (auto intro!: forEach_rule simp: pathBody_budget)

lemma serviceBody_budget:
  assumes "0 < maxRequests fl" and "within (maxRequests fl) st"
  shows "budgetPost (maxRequests fl) (serviceBody fl w sv st)"
  unfolding serviceBody_def
  using assms by (auto intro!: forEach_rule simp: routeBody_budget)

lemma testRoutes_bound:
  assumes "0 < maxRequests fl"
  shows "int (probesExecuted (testRoutes fl w config)) \<le> maxRequests fl"
proof -
  let ?init = "\<lparr>results = [], requestCount = 0\<rparr>"
  have "within (maxRequests fl) ?init"
    using assms by (simp add: within_def counted_def)
  then have "budgetPost (maxRequests fl) (forEach (serviceBody fl w) (Services config) ?init)"
    using assms by (intro forEach_rule) (simp_all add: serviceBody_budget)
  then show ?thesis
    by (auto simp: testRoutes_def probesExecuted_def within_def split: flow.splits)
qed

lemma forEach_grows:
  assumes "counted st"
    and "\<And>x s. x \<in> set xs \<Longrightarrow> counted s \<Longrightarrow> grows s (body' x s)"
  shows "grows st (forEach body' xs st)"
  unfolding grows_def
proof (rule forEach_rule)
  show "counted st \<and> prefix (results st) (results st)" using assms(1) by simp
next
  fix x s
  assume x: "x \<in> set xs" and s: "counted s \<and> prefix (results st) (results s)"
  then have "grows s (body' x s)" using assms(2) by simp
  then show "ensures (\<lambda>s'. counted s' \<and> prefix (results st) (results s')) (\<lambda>rs. False)
          (\<lambda>s'. prefix (results st) (results s')) (body' x s)"
    using s by (cases "body' x s") (auto simp: grows_def intro: prefix_order.trans)
qed

lemma take_prefix: "prefix xs ys \<Longrightarrow> n \<le> length xs \<Longrightarrow> take n ys = take n xs"
  by (auto simp: prefix_def)

lemma sim_after_return:
  assumes "grows st0 out0" and "n < length (results st0)"
  shows "sim n out0 (Return (take n (results st0)))"
proof (cases out0)
  case (Continue sF)
  with assms(1) have p: "prefix (results st0) (results sF)" by (simp add: grows_def)
  then have "length (results st0) \<le> length (results sF)" by (rule prefix_length_le)
  moreover have "take n (results sF) = take n (results st0)"
    using p assms(2) by (intro take_prefix) simp_all
  ultimately show ?thesis using Continue assms(2) by (simp add: sim_def)
next
  case (Return rs)
  with assms(1) show ?thesis by (simp add: grows_def)
next
  case (Panic sF)
  with assms(1) have p: "prefix (results st0) (results sF)" by (simp add: grows_def)
  then have "length (results st0) \<le> length (results sF)" by (rule prefix_length_le)
  moreover have "take n (results sF) = take n (results st0)"
    using p assms(2) by (intro take_prefix) simp_all
  ultimately show ?thesis using Panic assms(2) by (simp add: sim_def)
qed

lemma forEach_sim:
  assumes "counted st" and "length (results st) \<le> n"
    and step: "\<And>x s. x \<in> set xs \<Longrightarrow> counted s \<Longrightarrow> length (results s) \<le> n \<Longrightarrow> sim n (body0 x s) (body' x s)"
    and mono: "\<And>x s. x \<in> set xs \<Longrightarrow> counted s \<Longrightarrow> grows s (body0 x s)"
  shows "sim n (forEach body0 xs st) (forEach body' xs st)"
  using assms
proof (induction xs arbitrary: st)
  case Nil
  then show ?case by (simp add: sim_def)
next
  case (Cons x xs)
  have s1: "sim n (body0 x st) (body' x st)" using Cons.prems by simp
  have g1: "grows st (body0 x st)" using Cons.prems by simp
  show ?case
  proof (cases "body0 x st")
    case (Continue st0)
    with g1 have c0: "counted st0" by (simp add: grows_def)
    show ?thesis
    proof (cases "length (results st0) \<le> n")
      case True
      with s1 Continue have "body' x st = Continue st0" by (simp add: sim_def)
      moreover have "sim n (forEach body0 xs st0) (forEach body' xs st0)"
        using c0 True Cons.prems(3,4) by (intro Cons.IH) simp_all
      ultimately show ?thesis using Continue by simp
    next
      case False
      with s1 Continue have b: "body' x st = Return (take n (results st0))" by (simp add: sim_def)
      have "grows st0 (forEach body0 xs st0)"
        using c0 Cons.prems(4) by (intro forEach_grows) simp_all
      then have "sim n (forEach body0 xs st0) (Return (take n (results st0)))"
        using False by (intro sim_after_return) simp_all
      then show ?thesis using Continue b by simp
    qed
  next
    case (Return rs)
    with s1 show ?thesis by (simp add: sim_def)
  next
    case (Panic st0)
    with s1 show ?thesis by (auto simp: sim_def split: if_splits)
  qed
qed

lemma testEndpoint_unlimited:
  "testEndpoint (unlimited fl) w n sv rt p m a = testEndpoint fl w n sv rt p m a"
  by (simp add: testEndpoint_def Let_def cong: sum.case_cong option.case_cong prod.case_cong if_cong)

lemma methodBody_grows:
  "counted s \<Longrightarrow> grows s (methodBody (unlimited fl) w sv rt p a m s)"
  by (auto simp: methodBody_def grows_def counted_def split: sum.splits)

lemma pathBody_grows:
  "counted s \<Longrightarrow> grows s (pathBody (unlimited fl) w sv rt a ms p s)"
  unfolding pathBody_def Let_def by (intro forEach_grows) (simp_all add: methodBody_grows)

lemma routeBody_grows:
  "counted s \<Longrightarrow> grows s (routeBody (unlimited fl) w sv rt s)"
  unfolding routeBody_def Let_def
  by (auto intro!: forEach_grows simp: pathBody_grows) (simp_all add: grows_def)

lemma serviceBody_grows:
  "counted s \<Longrightarrow> grows s (serviceBody (unlimited fl) w sv s)"
  unfolding serviceBody_def
  by (auto intro!: forEach_grows simp: routeBody_grows) (simp_all add: grows_def)

lemma methodBody_sim:
  assumes "0 < maxRequests fl" and "counted s" and "length (results s) \<le> nat (maxRequests fl)"
  shows "sim (nat (maxRequests fl)) (methodBody (unlimited fl) w sv rt p a m s) (methodBody fl w sv rt p a m s)"
proof -
  let ?n = "nat (maxRequests fl)"
  have c: "requestCount s = int (length (results s))" using assms(2) by (simp add: counted_def)
  have u: "methodBody (unlimited fl) w sv rt p a m s =
             (case testEndpoint fl w (requestCount s) sv rt p m a of
                Inl e \<Rightarrow> Panic s
              | Inr r \<Rightarrow> Continue (s\<lparr>results := results s @ [r], requestCount := requestCount s + 1\<rparr>))"
    by (simp add: methodBody_def testEndpoint_unlimited)
  show ?thesis
  proof (cases "length (results s) = ?n")
    case True
    then have "requestCount s \<ge> maxRequests fl" using c assms(1) by simp
    then have "methodBody fl w sv rt p a m s = Return (results s)"
      using assms(1) by (simp add: methodBody_def)
    then show ?thesis
      unfolding u using True by (simp add: sim_def split: sum.splits)
  next
    case False
    then have lt: "length (results s) < ?n" using assms(3) by simp
    then have "\<not> requestCount s \<ge> maxRequests fl" using c by simp
    then have "methodBody fl w sv rt p a m s = methodBody (unlimited fl) w sv rt p a m s"
      unfolding u by (simp add: methodBody_def)
    then show ?thesis
      unfolding u using lt by (simp add: sim_def split: sum.splits)
  qed
qed

lemma pathBody_sim:
  assumes "0 < maxRequests fl" and "counted s" and "length (results s) \<le> nat (maxRequests fl)"
  shows "sim (nat (maxRequests fl)) (pathBody (unlimited fl) w sv rt a ms p s) (pathBody fl w sv rt a ms p s)"
  unfolding pathBody_def Let_def
  using assms by (intro forEach_sim) (simp_all add: methodBody_sim methodBody_grows)

lemma routeBody_sim:
  assumes "0 < maxRequests fl" and "counted s" and "length (results s) \<le> nat (maxRequests fl)"
  shows "sim (nat (maxRequests fl)) (routeBody (unlimited fl) w sv rt s) (routeBody fl w sv rt s)"
proof -
  have skip: "sim (nat (maxRequests fl)) (Continue s) (Continue s)"
    using assms(3) by (simp add: sim_def)
  show ?thesis
    unfolding routeBody_def Let_def
    using assms skip by (auto intro!: forEach_sim simp: pathBody_sim pathBody_grows)
qed

lemma serviceBody_sim:
  assumes "0 < maxRequests fl" and "counted s" and "length (results s) \<le> nat (maxRequests fl)"
  shows "sim (nat (maxRequests fl)) (serviceBody (unlimited fl) w sv s) (serviceBody fl w sv s)"
proof -
  have skip: "sim (nat (maxRequests fl)) (Continue s) (Continue s)"
    using assms(3) by (simp add: sim_def)
  show ?thesis
    unfolding serviceBody_def
    using assms skip by (auto intro!: forEach_sim simp: routeBody_sim routeBody_grows)
qed

lemma testRoutes_sim:
  assumes "0 < maxRequests fl"
  shows "sim (nat (maxRequests fl))
           (forEach (serviceBody (unlimited fl) w) (Services config) \<lparr>results = [], requestCount = 0\<rparr>)
           (forEach (serviceBody fl w) (Services config) \<lparr>results = [], requestCount = 0\<rparr>)"
  using assms
  by (intro forEach_sim) (simp_all add: counted_def serviceBody_sim serviceBody_grows)

text \<open>
  C1. Under a positive \<^verbatim>\<open>maxRequests\<close>, a run starts at most \<^verbatim>\<open>maxRequests\<close> probes,
  whether it returns or panics. It returns exactly the first \<^verbatim>\<open>maxRequests\<close> results
  of the run without a budget (all of them when there are fewer), wherever in a service
  or a route the budget is reached; that holds also when the run without a budget
  panics only after \<^verbatim>\<open>maxRequests\<close> results.
\<close>

theorem testRoutes_budget:
  assumes "0 < maxRequests fl"
  shows "int (probesExecuted (testRoutes fl w config)) \<le> maxRequests fl
    \<and> (\<forall>rs. testRoutes (unlimited fl) w config = Returned rs
          \<longrightarrow> testRoutes fl w config = Returned (take (nat (maxRequests fl)) rs))
    \<and> (\<forall>rs. testRoutes (unlimited fl) w config = Panicked rs \<and> nat (maxRequests fl) \<le> length rs
          \<longrightarrow> testRoutes fl w config = Returned (take (nat (maxRequests fl)) rs))"
proof (intro conjI allI impI)
  show "int (probesExecuted (testRoutes fl w config)) \<le> maxRequests fl"
    using assms by (rule testRoutes_bound)
next
  fix rs
  assume "testRoutes (unlimited fl) w config = Returned rs"
  then show "testRoutes fl w config = Returned (take (nat (maxRequests fl)) rs)"
    using testRoutes_sim [OF assms, of w config]
    by (auto simp: testRoutes_def sim_def split: flow.splits if_splits)
next
  fix rs
  assume "testRoutes (unlimited fl) w config = Panicked rs \<and> nat (maxRequests fl) \<le> length rs"
  then show "testRoutes fl w config = Returned (take (nat (maxRequests fl)) rs)"
    using testRoutes_sim [OF assms, of w config]
    by (auto simp: testRoutes_def sim_def split: flow.splits if_splits)
qed

lemma demo_unlimited:
  "testRoutes (dryFlags 0) offline demoConfig =
     Returned
       [dryResult ''user'' ''/users/user123'' ''GET'',
        dryResult ''user'' ''/users/user123'' ''POST'',
        dryResult ''user'' ''/users/user123'' ''PUT'',
        dryResult ''user'' ''/users/user123'' ''DELETE'',
        dryResult ''user'' ''/users/user123'' ''PATCH'',
        dryResult ''user'' ''/users'' ''GET'',
        dryResult ''user'' ''/users'' ''POST'',
        dryResult ''user'' ''/users'' ''PUT'',
        dryResult ''user'' ''/users'' ''DELETE'',
        dryResult ''user'' ''/users'' ''PATCH'',
        dryResult ''ping'' ''/ping'' ''GET'',
        dryResult ''ping'' ''/ping'' ''HEAD'']"
  by code_simp

theorem testRoutes_budget_witness:
  "testRoutes (dryFlags 7) offline demoConfig =
     Returned
       [dryResult ''user'' ''/users/user123'' ''GET'',
        dryResult ''user'' ''/users/user123'' ''POST'',
        dryResult ''user'' ''/users/user123'' ''PUT'',
        dryResult ''user'' ''/users/user123'' ''DELETE'',
        dryResult ''user'' ''/users/user123'' ''PATCH'',
        dryResult ''user'' ''/users'' ''GET'',
        dryResult ''user'' ''/users'' ''POST'']
   \<and> probesExecuted (testRoutes (dryFlags 7) offline demoConfig) \<le> 7"
proof -
  have pos: "0 < maxRequests (dryFlags 7)" by (simp add: dryFlags_def)
  have u: "unlimited (dryFlags 7) = dryFlags 0" by (simp add: dryFlags_def)
  have m: "nat (maxRequests (dryFlags 7)) = 7" "maxRequests (dryFlags 7) = 7" by (simp_all add: dryFlags_def)
  show ?thesis
    using testRoutes_budget [OF pos, of offline demoConfig] demo_unlimited
    unfolding u m by (simp add: probesExecuted_def)
qed

lemma testEndpoint_fields:
  assumes "testEndpoint fl w n sv rt p m a = Inr r"
  shows "Service r = sv" "Route r = rt" "Path r = p" "Method r = m" "RequiresAuth r = a"
  using assms
  by (auto simp: testEndpoint_def Let_def split: if_splits option.splits sum.splits prod.splits)

lemma probesWith_iff:
  "probesWith h st out expected \<longleftrightarrow>
     (\<exists>p. prefix p expected \<and> (isContinue out \<longrightarrow> p = expected)
          \<and> map h (produced out) = map h (results st) @ p)"
proof
  assume "probesWith h st out expected"
  then show "\<exists>p. prefix p expected \<and> (isContinue out \<longrightarrow> p = expected)
          \<and> map h (produced out) = map h (results st) @ p"
    unfolding probesWith_def Let_def
    by (intro exI[of _ "drop (length (map h (results st))) (map h (produced out))"])
       (metis append_take_drop_id)
next
  assume "\<exists>p. prefix p expected \<and> (isContinue out \<longrightarrow> p = expected)
          \<and> map h (produced out) = map h (results st) @ p"
  then show "probesWith h st out expected"
    unfolding probesWith_def Let_def by auto
qed

lemma forEach_probesWith:
  assumes "\<And>x s. x \<in> set xs \<Longrightarrow> probesWith h s (body' x s) (f x)"
  shows "probesWith h st (forEach body' xs st) (concat (map f xs))"
  using assms
proof (induction xs arbitrary: st)
  case Nil
  then show ?case by (simp add: probesWith_iff produced_def)
next
  case (Cons x xs)
  from Cons.prems have "probesWith h st (body' x st) (f x)" by simp
  then obtain p where p: "prefix p (f x)" "isContinue (body' x st) \<longrightarrow> p = f x"
    "map h (produced (body' x st)) = map h (results st) @ p"
    unfolding probesWith_iff by blast
  show ?case
  proof (cases "body' x st")
    case (Continue st')
    with p have here: "map h (results st') = map h (results st) @ f x"
      by (simp add: isContinue_def produced_def)
    have "probesWith h st' (forEach body' xs st') (concat (map f xs))"
      using Cons.prems by (intro Cons.IH) simp
    then obtain q where q: "prefix q (concat (map f xs))"
      "isContinue (forEach body' xs st') \<longrightarrow> q = concat (map f xs)"
      "map h (produced (forEach body' xs st')) = map h (results st') @ q"
      unfolding probesWith_iff by blast
    show ?thesis
      unfolding probesWith_iff
      using Continue here q by (intro exI[of _ "f x @ q"]) auto
  next
    case (Return rs)
    then show ?thesis
      unfolding probesWith_iff
      using p by (intro exI[of _ p]) (auto simp: isContinue_def intro: prefix_order.trans)
  next
    case (Panic st')
    then show ?thesis
      unfolding probesWith_iff
      using p by (intro exI[of _ p]) (auto simp: isContinue_def intro: prefix_order.trans)
  qed
qed





lemma forEach_all:
  assumes "\<forall>r \<in> set (results st). P r"
    and "\<And>x s. x \<in> set xs \<Longrightarrow> \<forall>r \<in> set (results s). P r \<Longrightarrow> \<forall>r \<in> set (produced (body' x s)). P r"
  shows "\<forall>r \<in> set (produced (forEach body' xs st)). P r"
proof -
  let ?I = "\<lambda>s. \<forall>r \<in> set (results s). P r"
  let ?R = "\<lambda>rs. \<forall>r \<in> set rs. P r"
  have "ensures ?I ?R ?I (forEach body' xs st)"
  proof (rule forEach_rule)
    show "?I st" by (rule assms(1))
  next
    fix x and s :: state assume "x \<in> set xs" "?I s"
    then have "\<forall>r \<in> set (produced (body' x s)). P r" by (rule assms(2))
    then show "ensures ?I ?R ?I (body' x s)"
      by (cases "body' x s") (simp_all add: produced_def)
  qed
  then show ?thesis
    by (cases "forEach body' xs st") (simp_all add: produced_def)
qed

lemma methodBody_all:
  assumes "\<forall>r \<in> set (results s). P r"
    and "\<And>r. Service r = sv \<Longrightarrow> Route r = rt \<Longrightarrow> Path r = p \<Longrightarrow> P r"
  shows "\<forall>r \<in> set (produced (methodBody fl w sv rt p a m s)). P r"
  using assms
  by (auto simp: methodBody_def produced_def testEndpoint_fields split: sum.splits)

lemma pathBody_all:
  assumes "\<forall>r \<in> set (results s). P r"
    and "\<And>r. Service r = sv \<Longrightarrow> Route r = rt \<Longrightarrow> materialized w path r \<Longrightarrow> P r"
  shows "\<forall>r \<in> set (produced (pathBody fl w sv rt a ms path s)). P r"
  unfolding pathBody_def Let_def
proof (rule forEach_all [OF assms(1)], rule methodBody_all)
  fix r :: TestResult
  assume "Service r = sv" "Route r = rt"
    and "Path r = (if Contains path ''(?<'' then expandRegexPath (mapOrder w (requestCount s)) path else path)"
  then show "P r"
    by (intro assms(2)) (auto simp: materialized_def)
qed

lemma routeBody_all:
  assumes "\<forall>r \<in> set (results s). P r"
    and "\<And>r path. path \<in> set (Paths route) \<Longrightarrow> Service r = Service.Name service
           \<Longrightarrow> Route r = Route.Name route \<Longrightarrow> materialized w path r \<Longrightarrow> P r"
  shows "\<forall>r \<in> set (produced (routeBody fl w service route s)). P r"
proof -
  have "\<forall>r \<in> set (produced (forEach (pathBody fl w (Service.Name service) (Route.Name route) a ms)
            (Paths route) s)). P r" for a ms
    using assms(1)
  proof (rule forEach_all)
    fix x and s' :: state assume "x \<in> set (Paths route)" "\<forall>r \<in> set (results s'). P r"
    then show "\<forall>r \<in> set (produced (pathBody fl w (Service.Name service) (Route.Name route) a ms x s')). P r"
      using assms(2) by (intro pathBody_all) simp_all
  qed
  then show ?thesis
    using assms(1) by (simp add: routeBody_def Let_def produced_def)
qed

lemma serviceBody_all:
  assumes "\<forall>r \<in> set (results s). P r"
    and "\<And>r route path. route \<in> set (Routes service) \<Longrightarrow> path \<in> set (Paths route)
           \<Longrightarrow> Service r = Service.Name service \<Longrightarrow> Route r = Route.Name route
           \<Longrightarrow> materialized w path r \<Longrightarrow> P r"
  shows "\<forall>r \<in> set (produced (serviceBody fl w service s)). P r"
proof -
  have "\<forall>r \<in> set (produced (forEach (routeBody fl w service) (Routes service) s)). P r"
    using assms(1)
  proof (rule forEach_all)
    fix x and s' :: state assume "x \<in> set (Routes service)" "\<forall>r \<in> set (results s'). P r"
    then show "\<forall>r \<in> set (produced (routeBody fl w service x s')). P r"
      using assms(2) by (intro routeBody_all) simp_all
  qed
  then show ?thesis
    using assms(1) by (simp add: serviceBody_def produced_def)
qed

lemma testRoutes_fromConfig:
  "\<forall>r \<in> set (outcomes (testRoutes fl w config)). fromConfig w config r"
proof -
  let ?init = "\<lparr>results = [], requestCount = 0\<rparr>"
  have "\<forall>r \<in> set (produced (forEach (serviceBody fl w) (Services config) ?init)). fromConfig w config r"
  proof (rule forEach_all)
    show "\<forall>r \<in> set (results ?init). fromConfig w config r" by simp
  next
    fix x and s :: state assume x: "x \<in> set (Services config)" and "\<forall>r \<in> set (results s). fromConfig w config r"
    then show "\<forall>r \<in> set (produced (serviceBody fl w x s)). fromConfig w config r"
    proof (rule_tac serviceBody_all)
      fix r :: TestResult and route path
      assume "route \<in> set (Routes x)" "path \<in> set (Paths route)" "Service r = Service.Name x"
        "Route r = Route.Name route" "materialized w path r"
      with x show "fromConfig w config r" unfolding fromConfig_def by blast
    qed simp
  qed
  then show ?thesis
    by (simp add: testRoutes_def outcomes_def produced_def split: flow.splits)
qed

lemma methodBody_paths:
  "probesWith Path s (methodBody fl w sv rt p a m s) [p]"
  unfolding probesWith_iff methodBody_def
  by (auto simp: produced_def isContinue_def testEndpoint_fields split: sum.splits)

lemma pathBody_paths:
  "probesWith Path s (pathBody fl w sv rt a ms path s)
     (map (\<lambda>m. if Contains path ''(?<'' then expandRegexPath (mapOrder w (requestCount s)) path else path) ms)"
proof -
  let ?p = "if Contains path ''(?<'' then expandRegexPath (mapOrder w (requestCount s)) path else path"
  have "probesWith Path s (pathBody fl w sv rt a ms path s) (concat (map (\<lambda>m. [?p]) ms))"
    unfolding pathBody_def Let_def by (intro forEach_probesWith) (rule methodBody_paths)
  moreover have "concat (map (\<lambda>m. [?p]) ms) = map (\<lambda>m. ?p) ms"
    by (induction ms) simp_all
  ultimately show ?thesis by simp
qed

text \<open>
  C7, as the code has it. The probes of a declared path that contains the opening of a
  named capture, \<^verbatim>\<open>(?<\<close>, all carry the result of \<^verbatim>\<open>expandRegexPath\<close> on it, one per
  method; the probes of a declared path without it all carry the path itself, whatever
  other capture or pattern syntax it contains. And every result of a run has the names
  of a service and a route of the configuration and a path that comes from a declared
  path of that route in this way.
\<close>

theorem paths_materialized:
  "(Contains path ''(?<'' \<longrightarrow>
      probesWith Path st (pathBody fl w sv rt a ms path st)
        (map (\<lambda>m. expandRegexPath (mapOrder w (requestCount st)) path) ms))
   \<and> (\<not> Contains path ''(?<'' \<longrightarrow>
      probesWith Path st (pathBody fl w sv rt a ms path st) (map (\<lambda>m. path) ms))
   \<and> (\<forall>r \<in> set (outcomes (testRoutes fl w config)). fromConfig w config r)"
  using pathBody_paths [of st fl w sv rt a ms path] testRoutes_fromConfig [of fl w config]
  by (cases "Contains path ''(?<''") simp_all

theorem paths_materialized_witness:
  "map Path (produced (pathBody (dryFlags 0) offline ''users'' ''user'' True [''GET'', ''POST'']
       ''/users/(?<user_id>[^/]+)'' \<lparr>results = [], requestCount = 0\<rparr>))
     = [''/users/user123'', ''/users/user123'']
   \<and> map Path (produced (pathBody (dryFlags 0) offline ''users'' ''user'' True [''GET'', ''POST'']
       ''/users'' \<lparr>results = [], requestCount = 0\<rparr>))
     = [''/users'', ''/users'']
   \<and> fromConfig offline demoConfig (dryResult ''user'' ''/users/user123'' ''GET'')"
proof -
  let ?init = "\<lparr>results = [], requestCount = 0\<rparr>"
  let ?body = "pathBody (dryFlags 0) offline ''users'' ''user'' True [''GET'', ''POST'']"
  have k: "Contains ''/users/(?<user_id>[^/]+)'' ''(?<''" "\<not> Contains ''/users'' ''(?<''"
    by code_simp+
  have e: "expandRegexPath (mapOrder offline 0) ''/users/(?<user_id>[^/]+)'' = ''/users/user123''"
    by code_simp
  have c: "isContinue (?body ''/users/(?<user_id>[^/]+)'' ?init)" "isContinue (?body ''/users'' ?init)"
    by code_simp+
  have "dryResult ''user'' ''/users/user123'' ''GET'' \<in> set (outcomes (testRoutes (dryFlags 0) offline demoConfig))"
    unfolding demo_unlimited by (simp add: outcomes_def)
  then show ?thesis
    using paths_materialized [of "''/users/(?<user_id>[^/]+)''" ?init "dryFlags 0" offline "''users''" "''user''"
        True "[''GET'', ''POST'']" demoConfig]
      paths_materialized [of "''/users''" ?init "dryFlags 0" offline "''users''" "''user''"
        True "[''GET'', ''POST'']" demoConfig]
      k c
    by (simp add: probesWith_iff e)
qed

text \<open>
  Under every iteration order \<^verbatim>\<open>expandRegexPath\<close> rewrites the unnamed capture group of
  \<^verbatim>\<open>/catchall/(.*)\<close>.
\<close>

lemma ReplaceAll_catchall:
  "\<forall>(pattern, replacement) \<in> set replacements.
     ReplaceAll ''/catchall/path'' pattern replacement = ''/catchall/path''
     \<and> ReplaceAll ''/catchall/(.*)'' pattern replacement =
         (if pattern = ''(.*)'' then ''/catchall/path'' else ''/catchall/(.*)'')"
  by (simp add: replacements_def ReplaceAll_def)

lemma replaceLoop_catchall_done:
  "set order \<subseteq> set replacements \<Longrightarrow> replaceLoop order ''/catchall/path'' = ''/catchall/path''"
proof (induction order)
  case Nil
  then show ?case by simp
next
  case (Cons e order)
  obtain pattern replacement where e: "e = (pattern, replacement)" by (cases e)
  with Cons.prems have "(pattern, replacement) \<in> set replacements" by simp
  with ReplaceAll_catchall have "ReplaceAll ''/catchall/path'' pattern replacement = ''/catchall/path''"
    by blast
  with Cons e show ?case by simp
qed

lemma replaceLoop_catchall:
  "set order \<subseteq> set replacements \<Longrightarrow>
   replaceLoop order ''/catchall/(.*)'' =
     (if ''(.*)'' \<in> fst ` set order then ''/catchall/path'' else ''/catchall/(.*)'')"
proof (induction order)
  case Nil
  then show ?case by simp
next
  case (Cons e order)
  obtain pattern replacement where e: "e = (pattern, replacement)" by (cases e)
  with Cons.prems have "(pattern, replacement) \<in> set replacements" by simp
  with ReplaceAll_catchall have r: "ReplaceAll ''/catchall/(.*)'' pattern replacement =
         (if pattern = ''(.*)'' then ''/catchall/path'' else ''/catchall/(.*)'')"
    by blast
  show ?case
  proof (cases "pattern = ''(.*)''")
    case True
    with r e Cons.prems show ?thesis by (simp add: replaceLoop_catchall_done)
  next
    case False
    with r e Cons show ?thesis by simp
  qed
qed

lemma expandRegexPath_catchall: "expandRegexPath ks ''/catchall/(.*)'' = ''/catchall/path''"
proof -
  have "set (rangeOrder ks replacements) = set replacements"
    by (metis mset_rangeOrder set_mset_mset)
  moreover have "''(.*)'' \<in> fst ` set replacements"
    by (simp add: replacements_def)
  ultimately show ?thesis
    unfolding expandRegexPath_def by (simp add: replaceLoop_catchall)
qed

text \<open>
  The claim as the specification words it, for every capture syntax, fails: the declared
  path \<^verbatim>\<open>/catchall/(.*)\<close> contains a capture group that \<^verbatim>\<open>expandRegexPath\<close> would
  rewrite, it does not contain \<^verbatim>\<open>(?<\<close>, and the run probes it as it is written.
\<close>

theorem paths_capture_counterexample:
  "Contains ''/catchall/(.*)'' ''(.*)''
   \<and> expandRegexPath (mapOrder offline 0) ''/catchall/(.*)'' = ''/catchall/path''
   \<and> testRoutes (dryFlags 0) offline catchallConfig =
       Returned [\<lparr>Service = ''files'', Route = ''catchall'', Path = ''/catchall/(.*)'', Method = ''GET'',
                  RequiresAuth = False, StatusCode = 0, Error = None, Message = ''DRY RUN''\<rparr>]"
  by code_simp

end
